theory Spec2Isabelle
  imports Main
begin

section \<open>Exceptions and error codes\<close>

text \<open>
  The C++ exceptions thrown by the utilities (\<^verbatim>\<open>std::runtime_error\<close> with its message,
  the queue's \<^verbatim>\<open>timeout_exception\<close>, and the \<^verbatim>\<open>std::system_error\<close> that
  \<^verbatim>\<open>std::thread::join\<close> throws on a thread that is not joinable, the
  \<^verbatim>\<open>std::bad_function_call\<close> of an empty \<^verbatim>\<open>std::function\<close>) are values of \<open>exn\<close>;
  \<open>std_terminate\<close> stands for a call of \<^verbatim>\<open>std::terminate\<close>, which aborts the process.
  A throwing operation returns \<open>exn + 'a\<close>, with \<open>Inl\<close> for the exception.

  A \<^verbatim>\<open>boost::system::error_code\<close> is a different thing: a value handed to a completion
  callback. The code only ever tests it with \<^verbatim>\<open>error != 0\<close>; \<open>no_error\<close> is the value 0
  and \<open>io_error n\<close> is any other value.
\<close>

datatype exn =
    timeout_exception
  | runtime_error string
  | system_error string
  | bad_function_call
  | std_terminate

datatype error_code = no_error | io_error nat

section \<open>concurrent\_queue (concurrent\_queue.hpp)\<close>

text \<open>
  The two data members the operations touch: the atomic counter \<^verbatim>\<open>_size\<close> (a \<^verbatim>\<open>long\<close>
  inside \<^verbatim>\<open>boost::detail::atomic_count\<close>) and the \<^verbatim>\<open>std::list\<close> \<^verbatim>\<open>_container\<close>. The mutex
  serialises the operations, so each operation is a function on this state.
\<close>

record 'a concurrent_queue =
  q_size :: int
  q_container :: "'a list"

definition new_queue :: "'a concurrent_queue" where
  "new_queue = \<lparr>q_size = 0, q_container = []\<rparr>"

definition empty_q :: "'a concurrent_queue \<Rightarrow> bool" where
  "empty_q q = (q_size q = 0)"

text \<open>\<^verbatim>\<open>size()\<close> returns the \<^verbatim>\<open>long\<close> counter converted to \<^verbatim>\<open>size_t\<close> (64 bits).\<close>

definition size_q :: "'a concurrent_queue \<Rightarrow> nat" where
  "size_q q = nat (q_size q mod 2 ^ 64)"

definition do_push :: "'a \<Rightarrow> 'a concurrent_queue \<Rightarrow> 'a concurrent_queue" where
  "do_push element q = q\<lparr>q_size := q_size q + 1, q_container := q_container q @ [element]\<rparr>"

definition push :: "'a \<Rightarrow> 'a concurrent_queue \<Rightarrow> 'a concurrent_queue" where
  "push element q = do_push element q"

text \<open>
  \<^verbatim>\<open>do_pop\<close> reads \<^verbatim>\<open>front()\<close> and calls \<^verbatim>\<open>pop_front()\<close>: undefined on an empty list,
  which is \<open>None\<close> here. Its callers only reach it with an element stored.
\<close>

fun do_pop :: "'a concurrent_queue \<Rightarrow> ('a \<times> 'a concurrent_queue) option" where
  "do_pop q =
     (case q_container q of
        [] \<Rightarrow> None
      | x # xs \<Rightarrow> Some (x, q\<lparr>q_container := xs, q_size := q_size q - 1\<rparr>))"

text \<open>\<^verbatim>\<open>clear()\<close> swaps the container with an empty one; it does not touch \<^verbatim>\<open>_size\<close>.\<close>

definition clear :: "'a concurrent_queue \<Rightarrow> 'a concurrent_queue" where
  "clear q = q\<lparr>q_container := []\<rparr>"

text \<open>
  A waiting \<^verbatim>\<open>pop\<close> releases the mutex inside the condition variable, and other threads
  push meanwhile. What the waiting thread sees is one \<open>wakeup\<close> per call of
  \<^verbatim>\<open>timed_wait\<close>: \<open>notified xs\<close> when the call returns true, \<open>xs\<close> being the elements
  other threads pushed while it waited (none for a spurious wake-up), and \<open>timed_out xs\<close>
  when it returns false because the deadline was reached. \<^verbatim>\<open>timed_wait\<close> locks the mutex
  again before it returns, so a push can still land between the deadline and the return:
  \<open>xs\<close> are the elements pushed by then (none, when the queue is as it was). A list of
  wake-ups that ends without \<open>timed_out\<close> stands for a deadline reached right after the
  last of them, with nothing pushed.
\<close>

datatype 'a wakeup = notified "'a list" | timed_out "'a list"

text \<open>
  The loop \<^verbatim>\<open>while (_container.empty()) if (!timed_wait(lock, deadline)) return false;\<close>
  of \<^verbatim>\<open>pop(value_type&, size_t)\<close>: \<open>True\<close> when the loop ends because the container is
  not empty, \<open>False\<close> when \<^verbatim>\<open>timed_wait\<close> returned false. The source does not test the
  container again after that.
\<close>

fun timed_wait_nonempty ::
  "'a wakeup list \<Rightarrow> 'a concurrent_queue \<Rightarrow> bool \<times> 'a concurrent_queue" where
  "timed_wait_nonempty [] q =
     (if q_container q \<noteq> [] then (True, q) else (False, q))"
| "timed_wait_nonempty (timed_out xs # ws) q =
     (if q_container q \<noteq> [] then (True, q) else (False, fold push xs q))"
| "timed_wait_nonempty (notified xs # ws) q =
     (if q_container q \<noteq> [] then (True, q) else timed_wait_nonempty ws (fold push xs q))"

text \<open>\<^verbatim>\<open>bool pop(value_type &result, size_t timeout_ms)\<close>; \<open>result\<close> is the caller's variable.\<close>

definition pop_result_timeout ::
  "'a \<Rightarrow> 'a wakeup list \<Rightarrow> 'a concurrent_queue \<Rightarrow> (bool \<times> 'a \<times> 'a concurrent_queue) option" where
  "pop_result_timeout result ws q =
     (case timed_wait_nonempty ws q of
        (False, q') \<Rightarrow> Some (False, result, q')
      | (True, q') \<Rightarrow>
          (case do_pop q' of
             None \<Rightarrow> None
           | Some (x, q'') \<Rightarrow> Some (True, x, q'')))"

text \<open>
  \<^verbatim>\<open>value_type pop(size_t timeout_ms)\<close>: \<open>dflt\<close> is the default-constructed
  \<^verbatim>\<open>_result\<close>; the function throws when the two-argument form returns false.
\<close>

definition pop_timeout ::
  "'a \<Rightarrow> 'a wakeup list \<Rightarrow> 'a concurrent_queue \<Rightarrow> ((exn + 'a) \<times> 'a concurrent_queue) option" where
  "pop_timeout dflt ws q =
     (case pop_result_timeout dflt ws q of
        None \<Rightarrow> None
      | Some (ok, r, q') \<Rightarrow>
          if \<not> ok then Some (Inl timeout_exception, q') else Some (Inr r, q'))"

text \<open>
  The blocking forms wait without a deadline: one list of pushed elements per return of
  \<^verbatim>\<open>_condition.wait\<close>. \<open>None\<close> is a thread that stays blocked (no wake-up is left and
  nothing is stored).
\<close>

fun wait_nonempty :: "'a list list \<Rightarrow> 'a concurrent_queue \<Rightarrow> 'a concurrent_queue option" where
  "wait_nonempty [] q = (if q_container q \<noteq> [] then Some q else None)"
| "wait_nonempty (xs # ws) q =
     (if q_container q \<noteq> [] then Some q else wait_nonempty ws (fold push xs q))"

definition pop_result :: "'a list list \<Rightarrow> 'a concurrent_queue \<Rightarrow> ('a \<times> 'a concurrent_queue) option" where
  "pop_result ws q = (case wait_nonempty ws q of None \<Rightarrow> None | Some q' \<Rightarrow> do_pop q')"

definition pop :: "'a list list \<Rightarrow> 'a concurrent_queue \<Rightarrow> ('a \<times> 'a concurrent_queue) option" where
  "pop ws q = pop_result ws q"

text \<open>
  What a FIFO holds when a timed wait ends, on the contents alone: the stored elements if
  there are any, otherwise what has arrived by the first wake-up that brings something
  or reports the deadline. \<open>expired\<close> tells whether the wait ended on the deadline.
\<close>

fun arrivals :: "'a wakeup list \<Rightarrow> 'a list \<Rightarrow> 'a list" where
  "arrivals [] c = c"
| "arrivals (timed_out xs # ws) c = (if c \<noteq> [] then c else xs)"
| "arrivals (notified xs # ws) c = (if c \<noteq> [] then c else arrivals ws xs)"

fun expired :: "'a wakeup list \<Rightarrow> 'a list \<Rightarrow> bool" where
  "expired [] c = (c = [])"
| "expired (timed_out xs # ws) c = (c = [])"
| "expired (notified xs # ws) c = (c = [] \<and> expired ws xs)"

section \<open>synchronizer (synchronizer.hpp)\<close>

text \<open>
  The manual-reset event: the flag \<^verbatim>\<open>_condition_met\<close>. A
  \<^verbatim>\<open>boost::unique_lock<synchronizer>\<close> is seen through \<^verbatim>\<open>owns_lock()\<close> only.
  An operation returns what it returns or throws, paired with the synchronizer after it.
\<close>

record synchronizer =
  condition_met :: bool

record scoped_lock =
  owns_lock :: bool

definition new_synchronizer :: synchronizer where
  "new_synchronizer = \<lparr>condition_met = False\<rparr>"


definition set_lock :: "scoped_lock \<Rightarrow> synchronizer \<Rightarrow> (exn + unit) \<times> synchronizer" where
  "set_lock lock s =
     (if owns_lock lock = False then (Inl (runtime_error ''Invalid lock''), s)
      else (Inr (), s\<lparr>condition_met := True\<rparr>))"

definition reset_lock :: "scoped_lock \<Rightarrow> synchronizer \<Rightarrow> (exn + unit) \<times> synchronizer" where
  "reset_lock lock s =
     (if owns_lock lock = False then (Inl (runtime_error ''Invalid lock''), s)
      else (Inr (), s\<lparr>condition_met := False\<rparr>))"

text \<open>
  The overloads without a lock build a \<^verbatim>\<open>scoped_lock lock(*this)\<close>, which owns the lock,
  and call the overload that takes it.
\<close>

definition set_sync :: "synchronizer \<Rightarrow> (exn + unit) \<times> synchronizer" where
  "set_sync s = set_lock \<lparr>owns_lock = True\<rparr> s"

definition reset_sync :: "synchronizer \<Rightarrow> (exn + unit) \<times> synchronizer" where
  "reset_sync s = reset_lock \<lparr>owns_lock = True\<rparr> s"

text \<open>
  While a thread sits in \<^verbatim>\<open>_condition.wait(lock)\<close> the lock is released and other
  threads act on the flag; the waiting thread sees, per return of the call, what they
  did: set it, reset it, or nothing (a spurious wake-up).
\<close>

datatype interference = other_set | other_reset | spurious

fun interfere :: "interference \<Rightarrow> synchronizer \<Rightarrow> synchronizer" where
  "interfere other_set s = s\<lparr>condition_met := True\<rparr>"
| "interfere other_reset s = s\<lparr>condition_met := False\<rparr>"
| "interfere spurious s = s"

text \<open>
  \<^verbatim>\<open>while (_condition_met == false) _condition.wait(lock);\<close> \<open>None\<close> is a thread that
  never leaves the loop: the flag is false and no wake-up is left.
\<close>

fun wait_loop :: "interference list \<Rightarrow> synchronizer \<Rightarrow> synchronizer option" where
  "wait_loop [] s = (if condition_met s = False then None else Some s)"
| "wait_loop (w # ws) s =
     (if condition_met s = False then wait_loop ws (interfere w s) else Some s)"

definition wait_lock ::
  "scoped_lock \<Rightarrow> interference list \<Rightarrow> synchronizer \<Rightarrow> ((exn + unit) \<times> synchronizer) option" where
  "wait_lock lock ws s =
     (if owns_lock lock = False then Some (Inl (runtime_error ''Invalid lock''), s)
      else case wait_loop ws s of None \<Rightarrow> None | Some s' \<Rightarrow> Some (Inr (), s'))"

definition wait_sync :: "interference list \<Rightarrow> synchronizer \<Rightarrow> ((exn + unit) \<times> synchronizer) option" where
  "wait_sync ws s = wait_lock \<lparr>owns_lock = True\<rparr> ws s"





section \<open>The sockets under the connections\<close>

text \<open>
  The connections talk to Boost.Asio sockets. The library is not part of the repository;
  the operations below follow its documented contract. A socket is described by what it
  will do:

  \<^item> the receive side of a stream socket is the list of events still to come: a segment
    of bytes, or an error. A receive that finds an empty segment, or no event at all,
    reports end of file (the peer closed);
  \<^item> the send side is a plan of outcomes, one per send operation (none left: success),
    and the \<open>wire\<close>, the list of the payloads physically sent so far, one entry per
    send operation;
  \<^item> \<open>rx_log\<close> records, per completed \<^verbatim>\<open>async_read\<close>, the size of the buffer given to
    it and the number of bytes it transferred.
\<close>

datatype rx_event = rx_data "char list" | rx_error nat

datatype tx_outcome = tx_ok | tx_error nat nat

record tx_channel =
  tx_plan :: "tx_outcome list"
  wire :: "char list list"

record tcp_socket =
  rx :: "rx_event list"
  rx_log :: "(nat \<times> nat) list"
  tx :: tx_channel

definition eof :: error_code where
  "eof = io_error 2"

text \<open>
  One receive of at most \<open>k\<close> bytes on a stream socket: it takes what the next segment
  has, up to \<open>k\<close> bytes, and leaves the rest of the segment for the next receive.
\<close>

definition read_some :: "tcp_socket \<Rightarrow> nat \<Rightarrow> error_code \<times> char list \<times> tcp_socket" where
  "read_some sock k =
     (case rx sock of
        [] \<Rightarrow> (eof, [], sock)
      | rx_error e # rest \<Rightarrow> (io_error e, [], sock\<lparr>rx := rest\<rparr>)
      | rx_data bs # rest \<Rightarrow>
          if bs = [] then (eof, [], sock\<lparr>rx := rest\<rparr>)
          else if length bs \<le> k then (no_error, bs, sock\<lparr>rx := rest\<rparr>)
          else (no_error, take k bs, sock\<lparr>rx := rx_data (drop k bs) # rest\<rparr>))"

text \<open>
  The completion condition that \<^verbatim>\<open>tcp_connection::read\<close> gives to \<^verbatim>\<open>async_read\<close>:
  \<^verbatim>\<open>[bytes](const error_code& error, size_t len) { return error != 0 || len >= bytes; }\<close>
\<close>

definition read_done :: "nat \<Rightarrow> error_code \<Rightarrow> nat \<Rightarrow> bool" where
  "read_done bytes error len = (error \<noteq> no_error \<or> len \<ge> bytes)"

text \<open>
  \<^verbatim>\<open>boost::asio::async_read\<close> with a buffer of \<open>m\<close> bytes and that condition: it receives
  until the buffer is full, the condition holds, or a receive transfers nothing without
  an error. \<open>got\<close> is what the buffer holds so far.
\<close>

function async_read_loop ::
  "nat \<Rightarrow> nat \<Rightarrow> tcp_socket \<Rightarrow> char list \<Rightarrow> error_code \<times> char list \<times> tcp_socket" where
  "async_read_loop bytes m sock got =
     (case read_some sock (m - length got) of
        (error, bs, sock') \<Rightarrow>
          if (error = no_error \<and> bs = []) \<or> m \<le> length (got @ bs) then (error, got @ bs, sock')
          else if read_done bytes error (length (got @ bs)) then (error, got @ bs, sock')
          else async_read_loop bytes m sock' (got @ bs))"
  by pat_completeness auto
termination
  by (relation "measure (\<lambda>(bytes, m, sock, got). m - length got)")
     (auto simp: read_done_def neq_Nil_conv)

declare async_read_loop.simps [simp del]

definition async_read :: "nat \<Rightarrow> nat \<Rightarrow> tcp_socket \<Rightarrow> error_code \<times> char list \<times> tcp_socket" where
  "async_read bytes m sock =
     (case (if read_done bytes no_error 0 \<or> m = 0 then (no_error, [], sock)
            else async_read_loop bytes m sock [])
      of (error, got, sock') \<Rightarrow> (error, got, sock'\<lparr>rx_log := rx_log sock' @ [(m, length got)]\<rparr>))"

text \<open>
  \<^verbatim>\<open>boost::asio::async_write\<close> of one buffer: nothing is sent for an empty buffer; otherwise
  the whole buffer is sent, or the operation fails after \<open>k\<close> bytes with an error. It
  returns the error and the number of bytes transferred.
\<close>

definition async_write :: "tx_channel \<Rightarrow> char list \<Rightarrow> error_code \<times> nat \<times> tx_channel" where
  "async_write ch chunk =
     (if chunk = [] then (no_error, 0, ch)
      else case tx_plan ch of
             [] \<Rightarrow> (no_error, length chunk, ch\<lparr>wire := wire ch @ [chunk]\<rparr>)
           | tx_ok # plan \<Rightarrow>
               (no_error, length chunk, ch\<lparr>tx_plan := plan, wire := wire ch @ [chunk]\<rparr>)
           | tx_error e k # plan \<Rightarrow>
               (io_error e, min k (length chunk),
                ch\<lparr>tx_plan := plan, wire := wire ch @ [take k chunk]\<rparr>))"

text \<open>
  \<^verbatim>\<open>memcpy(&dst[d], &src[s], n)\<close>: undefined when either range leaves its array, which is
  \<open>None\<close>. \<^verbatim>\<open>resize(n)\<close> of a \<^verbatim>\<open>std::vector<char>\<close> keeps the first \<open>n\<close> elements and
  pads with zeros.
\<close>

definition memcpy :: "char list \<Rightarrow> nat \<Rightarrow> char list \<Rightarrow> nat \<Rightarrow> nat \<Rightarrow> char list option" where
  "memcpy dst d src s n =
     (if d + n \<le> length dst \<and> s + n \<le> length src
      then Some (take d dst @ take n (drop s src) @ drop (d + n) dst)
      else None)"

definition resize :: "nat \<Rightarrow> char list \<Rightarrow> char list" where
  "resize n xs = take n xs @ replicate (n - length xs) (CHR 0x00)"

text \<open>
  The bytes a stream socket delivers before it fails or closes: the segments up to the
  first error or empty segment, concatenated.
\<close>

fun delivered :: "rx_event list \<Rightarrow> char list" where
  "delivered [] = []"
| "delivered (rx_error e # rest) = []"
| "delivered (rx_data bs # rest) = (if bs = [] then [] else bs @ delivered rest)"

subsection \<open>Towards the termination of the chains\<close>

text \<open>
  The chains of reads and writes below end because every receive or send that
  succeeds transfers what was asked of it. These are the facts about the sockets
  that their termination proofs use.
\<close>

lemma read_some_length: "read_some sock k = (ec, bs, sock') \<Longrightarrow> length bs \<le> k"
  by (auto simp: read_some_def split: list.splits rx_event.splits if_splits)

lemma read_some_ok_nonempty:
  "read_some sock k = (no_error, bs, sock') \<Longrightarrow> 0 < k \<Longrightarrow> bs \<noteq> []"
  by (auto simp: read_some_def eof_def split: list.splits rx_event.splits if_splits)

lemma read_some_frame:
  "read_some sock k = (ec, bs, sock') \<Longrightarrow> tx sock' = tx sock \<and> rx_log sock' = rx_log sock"
  by (auto simp: read_some_def split: list.splits rx_event.splits if_splits)

lemma read_some_ok_delivered:
  "read_some sock k = (no_error, bs, sock') \<Longrightarrow> delivered (rx sock) = bs @ delivered (rx sock')"
  by (auto simp: read_some_def eof_def split: list.splits rx_event.splits if_splits)

lemma read_some_error_delivered:
  "read_some sock k = (ec, bs, sock') \<Longrightarrow> ec \<noteq> no_error \<Longrightarrow> delivered (rx sock) = [] \<and> bs = []"
  by (auto simp: read_some_def eof_def split: list.splits rx_event.splits if_splits)

lemma async_read_loop_ok:
  "async_read_loop bytes m sock got = (no_error, r, sock') \<Longrightarrow> length got < m \<Longrightarrow> m \<le> bytes \<Longrightarrow>
   \<exists>bs. r = got @ bs \<and> length r = m \<and> delivered (rx sock) = bs @ delivered (rx sock')
        \<and> tx sock' = tx sock \<and> rx_log sock' = rx_log sock"
proof (induction bytes m sock got rule: async_read_loop.induct)
  case (1 bytes m sock got)
  obtain ec bs1 s1 where rs: "read_some sock (m - length got) = (ec, bs1, s1)"
    by (cases "read_some sock (m - length got)") auto
  have len1: "length bs1 \<le> m - length got" using rs by (rule read_some_length)
  have fr: "tx s1 = tx sock \<and> rx_log s1 = rx_log sock" using rs by (rule read_some_frame)
  show ?case
  proof (cases "(ec = no_error \<and> bs1 = []) \<or> m \<le> length (got @ bs1)
                 \<or> read_done bytes ec (length (got @ bs1))")
    case True
    then have res: "async_read_loop bytes m sock got = (ec, got @ bs1, s1)"
      using rs by (subst async_read_loop.simps) auto
    with "1.prems"(1) have e: "ec = no_error" and r: "r = got @ bs1" and s: "sock' = s1" by simp_all
    have d: "delivered (rx sock) = bs1 @ delivered (rx s1)"
      using rs e read_some_ok_delivered by blast
    have ne: "bs1 \<noteq> []" using rs e "1.prems"(2) read_some_ok_nonempty [of sock "m - length got" bs1 s1] by simp
    have "length (got @ bs1) = m"
      using True e ne len1 "1.prems"(2,3) by (auto simp: read_done_def)
    then show ?thesis using r s d fr by auto
  next
    case False
    then have e: "ec = no_error" by (auto simp: read_done_def)
    from False have res: "async_read_loop bytes m sock got = async_read_loop bytes m s1 (got @ bs1)"
      using rs by (subst async_read_loop.simps) auto
    have lt: "length (got @ bs1) < m" using False by auto
    from "1.IH" [OF rs [symmetric] refl] False res "1.prems"(1) lt "1.prems"(3)
    obtain bs2 where b: "r = (got @ bs1) @ bs2" "length r = m"
        "delivered (rx s1) = bs2 @ delivered (rx sock')" "tx sock' = tx s1" "rx_log sock' = rx_log s1"
      by auto
    have d: "delivered (rx sock) = bs1 @ delivered (rx s1)"
      using rs e read_some_ok_delivered by blast
    show ?thesis using b d fr by auto
  qed
qed

lemma async_read_ok:
  assumes "async_read bytes m sock = (no_error, got, sock')" and "m \<le> bytes"
  shows "length got = m \<and> delivered (rx sock) = got @ delivered (rx sock')
         \<and> tx sock' = tx sock \<and> rx_log sock' = rx_log sock @ [(m, m)]"
proof (cases "read_done bytes no_error 0 \<or> m = 0")
  case True
  then have "m = 0" using assms(2) by (auto simp: read_done_def)
  with assms(1) True show ?thesis by (auto simp: async_read_def)
next
  case False
  obtain r s1 where l: "async_read_loop bytes m sock [] = (no_error, r, s1)"
    and g: "got = r" and s: "sock' = s1\<lparr>rx_log := rx_log s1 @ [(m, length r)]\<rparr>"
    using assms(1) False by (auto simp: async_read_def split: prod.splits)
  from False have "length ([]::char list) < m" by simp
  from async_read_loop_ok [OF l this assms(2)] g s show ?thesis by auto
qed

lemma async_write_ok:
  "async_write ch chunk = (no_error, n, ch') \<Longrightarrow> n = length chunk"
  by (auto simp: async_write_def split: if_splits list.splits tx_outcome.splits)

section \<open>tcp\_connection (transport/tcp\_connection.hpp)\<close>

text \<open>
  The connection: its socket, the two scratch arrays of \<open>BUFFER_LENGTH\<close> bytes and the
  two vectors (the members \<^verbatim>\<open>socket_\<close>, \<^verbatim>\<open>read_buffer_\<close>, \<^verbatim>\<open>write_buffer_\<close>,
  \<^verbatim>\<open>incoming_data_\<close>, \<^verbatim>\<open>outgoing_data_\<close>, written without the final underscore). The
  tracing macros only print; they are left out.
\<close>

definition BUFFER_LENGTH :: nat where
  "BUFFER_LENGTH = 1024"

record tcp_connection =
  socket :: tcp_socket
  read_buffer :: "char list"
  write_buffer :: "char list"
  incoming_data :: "char list"
  outgoing_data :: "char list"

text \<open>
  The private \<^verbatim>\<open>read(bytes, buffer, callback, read_bytes)\<close>. The completion handler of one
  \<^verbatim>\<open>async_read\<close> either calls the callback or starts the next one, so the chain is a
  recursive function and what it returns is what the callback is called with, once:
  the error, together with the caller's \<open>buffer\<close> (passed by reference in the source)
  and the connection as they are at that moment. \<open>None\<close> is a \<^verbatim>\<open>memcpy\<close> out of range.
  A receive that succeeds fills its buffer of at most \<open>bytes\<close> bytes (fact
  \<open>async_read_ok\<close>), so \<^verbatim>\<open>bytes-len\<close> does not wrap around.
\<close>

function read_chunked ::
  "nat \<Rightarrow> char list \<Rightarrow> nat \<Rightarrow> tcp_connection
     \<Rightarrow> (error_code \<times> char list \<times> tcp_connection) option" where
  "read_chunked bytes buffer read_bytes c =
     (case async_read bytes (if bytes < BUFFER_LENGTH then bytes else BUFFER_LENGTH) (socket c) of
        (error, got, sock') \<Rightarrow>
          (let len = length got;
               c' = c\<lparr>socket := sock', read_buffer := got @ drop len (read_buffer c)\<rparr>
           in if error \<noteq> no_error then Some (error, buffer, c')
              else case memcpy buffer read_bytes (read_buffer c') 0 len of
                     None \<Rightarrow> None
                   | Some buffer' \<Rightarrow>
                       if bytes - len > 0
                       then read_chunked (bytes - len) buffer' (read_bytes + len) c'
                       else Some (no_error, buffer', c')))"
  by pat_completeness auto
termination
proof (relation "measure (\<lambda>(bytes, buffer, read_bytes, c). bytes)", goal_cases)
  case 1
  show ?case by simp
next
  case (2 bytes buffer read_bytes c error y got sock' len c' buffer')
  from 2(1,2,5) have "async_read bytes (if bytes < BUFFER_LENGTH then bytes else BUFFER_LENGTH)
      (socket c) = (no_error, got, sock')"
    by simp
  from async_read_ok [OF this]
  have "length got = (if bytes < BUFFER_LENGTH then bytes else BUFFER_LENGTH)" by simp
  with 2(3,7) have "0 < len" and "0 < bytes"
    by (auto simp: BUFFER_LENGTH_def split: if_splits)
  then show ?case by simp
qed

declare read_chunked.simps [simp del]

text \<open>The public \<^verbatim>\<open>read(bytes, data, callback)\<close> starts the chain at offset 0.\<close>

definition read_into ::
  "nat \<Rightarrow> char list \<Rightarrow> tcp_connection \<Rightarrow> (error_code \<times> char list \<times> tcp_connection) option" where
  "read_into bytes data c = read_chunked bytes data 0 c"

text \<open>
  The public \<^verbatim>\<open>read(bytes, callback)\<close> resizes \<^verbatim>\<open>incoming_data_\<close>, reads into it, and
  its completion lambda calls \<^verbatim>\<open>callback(error, std::move(incoming_data_))\<close> whatever the
  error is: the result is the pair given to the callback. The callback takes the vector
  by value, as the comment of the function gives its signature
  (\<^verbatim>\<open>buffer: std::vector<char>\<close>), so the member is moved from and left empty.
\<close>

definition read ::
  "nat \<Rightarrow> tcp_connection \<Rightarrow> (error_code \<times> char list \<times> tcp_connection) option" where
  "read bytes c =
     (let c1 = c\<lparr>incoming_data := resize bytes (incoming_data c)\<rparr>
      in case read_into bytes (incoming_data c1) c1 of
           None \<Rightarrow> None
         | Some (error, buffer, c') \<Rightarrow> Some (error, buffer, c'\<lparr>incoming_data := []\<rparr>))"

text \<open>
  The private \<^verbatim>\<open>write(callback, sent)\<close>. \<^verbatim>\<open>outgoing_data_.size() - sent\<close> wraps around when
  \<open>sent\<close> is beyond the size, and the \<^verbatim>\<open>memcpy\<close> then reads out of range; here the
  subtraction stops at 0 and the range check of \<open>memcpy\<close> gives \<open>None\<close> for the same
  inputs.
\<close>

function write_chunked :: "nat \<Rightarrow> tcp_connection \<Rightarrow> (error_code \<times> tcp_connection) option" where
  "write_chunked sent c =
     (let increment = length (outgoing_data c) - sent;
          increment = (if increment < BUFFER_LENGTH then increment else BUFFER_LENGTH)
      in case memcpy (write_buffer c) 0 (outgoing_data c) sent increment of
           None \<Rightarrow> None
         | Some wb \<Rightarrow>
             (case async_write (tx (socket c)) (take increment wb) of
                (error, bytes_transferred, ch') \<Rightarrow>
                  (let c' = c\<lparr>write_buffer := wb, socket := (socket c)\<lparr>tx := ch'\<rparr>\<rparr>
                   in if error \<noteq> no_error \<or> sent + bytes_transferred = length (outgoing_data c')
                      then Some (error, c')
                      else write_chunked (sent + bytes_transferred) c')))"
  by pat_completeness auto
termination
proof (relation "measure (\<lambda>(sent, c). length (outgoing_data c) - sent)", goal_cases)
  case 1
  show ?case by simp
next
  case (2 sent c increment0 increment wb error y bytes_transferred ch' c')
  from 2(3) have r: "sent + increment \<le> length (outgoing_data c)"
    and w: "length wb = length (write_buffer c)" and i: "increment \<le> length (write_buffer c)"
    by (auto simp: memcpy_def split: if_splits)
  from 2(4,5,7) have a: "async_write (tx (socket c)) (take increment wb)
      = (no_error, bytes_transferred, ch')"
    by simp
  from async_write_ok [OF a] w i have b: "bytes_transferred = increment" by simp
  from 2(6,7) have n: "sent + bytes_transferred \<noteq> length (outgoing_data c)" by simp
  have "0 < increment"
  proof (rule ccontr)
    assume "\<not> 0 < increment"
    with 2(1,2) r have "sent = length (outgoing_data c)"
      by (auto simp: BUFFER_LENGTH_def split: if_splits)
    with n b \<open>\<not> 0 < increment\<close> show False by simp
  qed
  with r b 2(6) show ?case by simp
qed

declare write_chunked.simps [simp del]

text \<open>
  The public \<^verbatim>\<open>write(data, callback)\<close> takes the vector by value, moves it into
  \<^verbatim>\<open>outgoing_data_\<close> and starts the chain with nothing sent.
\<close>

definition write_data :: "char list \<Rightarrow> tcp_connection \<Rightarrow> (error_code \<times> tcp_connection) option" where
  "write_data data c = write_chunked 0 (c\<lparr>outgoing_data := data\<rparr>)"

text \<open>
  The sizes of the receives that a read of \<open>n\<close> bytes is made of, as the design states
  them: \<open>min(remaining, BUFFER_LENGTH)\<close> each, until nothing remains (a read of no bytes
  is one receive of no bytes).
\<close>

function chunk_lengths :: "nat \<Rightarrow> nat list" where
  "chunk_lengths n =
     (if n \<le> BUFFER_LENGTH then [n] else BUFFER_LENGTH # chunk_lengths (n - BUFFER_LENGTH))"
  by pat_completeness auto
termination
  by (relation "measure (\<lambda>n. n)") (auto simp: BUFFER_LENGTH_def)

declare chunk_lengths.simps [simp del]

text \<open>
  A connection as its constructor leaves it, on a socket with the given future: the
  vectors empty, the scratch arrays (uninitialised in the source) filled with zeros.
\<close>

definition new_tcp_connection :: "rx_event list \<Rightarrow> tx_outcome list \<Rightarrow> tcp_connection" where
  "new_tcp_connection evs plan =
     \<lparr>socket = \<lparr>rx = evs, rx_log = [], tx = \<lparr>tx_plan = plan, wire = []\<rparr>\<rparr>,
      read_buffer = replicate BUFFER_LENGTH (CHR 0x00),
      write_buffer = replicate BUFFER_LENGTH (CHR 0x00),
      incoming_data = [], outgoing_data = []\<rparr>"

section \<open>udp\_connection (transport/udp\_connection.hpp)\<close>

text \<open>
  A datagram socket: the datagrams queued for reading, each with its sender; a plan of
  faults, one entry per asynchronous receive operation (\<open>Some e\<close>: the operation fails
  with error \<open>e\<close>; no entry left: no fault); and the send side, as for the stream socket.
\<close>

datatype endpoint = endpoint string nat

text \<open>The default-constructed \<^verbatim>\<open>endpoint_type()\<close>.\<close>

definition endpoint_type :: endpoint where
  "endpoint_type = endpoint ''0.0.0.0'' 0"

record udp_socket =
  inbox :: "(endpoint \<times> char list) list"
  faults :: "nat option list"
  utx :: tx_channel

definition next_fault :: "udp_socket \<Rightarrow> nat option \<times> udp_socket" where
  "next_fault s = (case faults s of [] \<Rightarrow> (None, s) | f # fs \<Rightarrow> (f, s\<lparr>faults := fs\<rparr>))"

text \<open>
  \<^verbatim>\<open>async_receive(null_buffers(), handler)\<close> waits until the socket is readable and reads
  nothing. \<open>None\<close>: it stays pending, no datagram arrives.
\<close>

definition async_receive_null :: "udp_socket \<Rightarrow> (error_code \<times> udp_socket) option" where
  "async_receive_null s =
     (case next_fault s of
        (Some e, s') \<Rightarrow> Some (io_error e, s')
      | (None, s') \<Rightarrow> if inbox s' = [] then None else Some (no_error, s'))"

text \<open>
  Modelled from the spec: \<^verbatim>\<open>socket_.available()\<close> is a function of Boost.Asio, which is
  not under src/; the spec has the read probe "the next datagram's exact size" with it, so
  it is the size of the next datagram queued (0 when there is none).
\<close>

definition available :: "udp_socket \<Rightarrow> nat" where
  "available s = (case inbox s of [] \<Rightarrow> 0 | (sender, bs) # rest \<Rightarrow> length bs)"

text \<open>
  \<^verbatim>\<open>async_receive_from(buffer, endpoint, handler)\<close> takes the next datagram whole: it
  copies as much of it as the buffer holds, sets the endpoint to the sender and drops the
  rest. On a failure it leaves buffer and endpoint as they are. It returns the error, the
  bytes transferred, the buffer and the endpoint.
\<close>

definition async_receive_from ::
  "udp_socket \<Rightarrow> char list \<Rightarrow> endpoint
     \<Rightarrow> (error_code \<times> nat \<times> char list \<times> endpoint \<times> udp_socket) option" where
  "async_receive_from s buffer ep =
     (case next_fault s of
        (Some e, s') \<Rightarrow> Some (io_error e, 0, buffer, ep, s')
      | (None, s') \<Rightarrow>
          (case inbox s' of
             [] \<Rightarrow> None
           | (sender, bs) # rest \<Rightarrow>
               let n = min (length buffer) (length bs)
               in Some (no_error, n, take n bs @ drop n buffer, sender, s'\<lparr>inbox := rest\<rparr>)))"

text \<open>
  The connection (members \<^verbatim>\<open>socket_\<close>, \<^verbatim>\<open>write_buffer_\<close>, \<^verbatim>\<open>outgoing_data_\<close>) and the
  \<^verbatim>\<open>udp_read_cb_data\<close> that one read allocates.
\<close>

record udp_connection =
  usocket :: udp_socket
  uwrite_buffer :: "char list"
  uoutgoing_data :: "char list"

record udp_read_cb_data =
  cb_buffer :: "char list"
  cb_endpoint :: endpoint

definition new_udp_read_cb_data :: "nat \<Rightarrow> udp_read_cb_data" where
  "new_udp_read_cb_data bytes_to_read =
     \<lparr>cb_buffer = replicate bytes_to_read (CHR 0x00), cb_endpoint = endpoint_type\<rparr>"

text \<open>
  \<^verbatim>\<open>read(callback)\<close>: the result is what the callback is called with (error, endpoint,
  bytes) and the connection afterwards; \<open>None\<close> when no datagram ever arrives.
\<close>

definition udp_read ::
  "udp_connection \<Rightarrow> ((error_code \<times> endpoint \<times> char list) \<times> udp_connection) option" where
  "udp_read c =
     (case async_receive_null (usocket c) of
        None \<Rightarrow> None
      | Some (error, s1) \<Rightarrow>
          if error \<noteq> no_error then Some ((error, endpoint_type, []), c\<lparr>usocket := s1\<rparr>)
          else
            (let read_data = new_udp_read_cb_data (available s1)
             in case async_receive_from s1 (cb_buffer read_data) (cb_endpoint read_data) of
                  None \<Rightarrow> None
                | Some (error, bytes_transferred, buf, ep, s2) \<Rightarrow>
                    (let read_data = read_data\<lparr>cb_buffer := buf, cb_endpoint := ep\<rparr>;
                         read_data =
                           (if error = no_error
                            then read_data\<lparr>cb_buffer := resize bytes_transferred (cb_buffer read_data)\<rparr>
                            else read_data)
                     in Some ((error, cb_endpoint read_data, cb_buffer read_data),
                              c\<lparr>usocket := s2\<rparr>))))"

text \<open>
  The private \<^verbatim>\<open>write(callback, sent)\<close> and the public \<^verbatim>\<open>write(data, callback)\<close> of the
  datagram connection, from their own source text.
\<close>

function udp_write_chunked ::
  "nat \<Rightarrow> udp_connection \<Rightarrow> (error_code \<times> udp_connection) option" where
  "udp_write_chunked sent c =
     (let increment = length (uoutgoing_data c) - sent;
          increment = (if increment < BUFFER_LENGTH then increment else BUFFER_LENGTH)
      in case memcpy (uwrite_buffer c) 0 (uoutgoing_data c) sent increment of
           None \<Rightarrow> None
         | Some wb \<Rightarrow>
             (case async_write (utx (usocket c)) (take increment wb) of
                (error, bytes_transferred, ch') \<Rightarrow>
                  (let c' = c\<lparr>uwrite_buffer := wb, usocket := (usocket c)\<lparr>utx := ch'\<rparr>\<rparr>
                   in if error \<noteq> no_error \<or> sent + bytes_transferred = length (uoutgoing_data c')
                      then Some (error, c')
                      else udp_write_chunked (sent + bytes_transferred) c')))"
  by pat_completeness auto
termination
proof (relation "measure (\<lambda>(sent, c). length (uoutgoing_data c) - sent)", goal_cases)
  case 1
  show ?case by simp
next
  case (2 sent c increment0 increment wb error y bytes_transferred ch' c')
  from 2(3) have r: "sent + increment \<le> length (uoutgoing_data c)"
    and w: "length wb = length (uwrite_buffer c)" and i: "increment \<le> length (uwrite_buffer c)"
    by (auto simp: memcpy_def split: if_splits)
  from 2(4,5,7) have a: "async_write (utx (usocket c)) (take increment wb)
      = (no_error, bytes_transferred, ch')"
    by simp
  from async_write_ok [OF a] w i have b: "bytes_transferred = increment" by simp
  from 2(6,7) have n: "sent + bytes_transferred \<noteq> length (uoutgoing_data c)" by simp
  have "0 < increment"
  proof (rule ccontr)
    assume "\<not> 0 < increment"
    with 2(1,2) r have "sent = length (uoutgoing_data c)"
      by (auto simp: BUFFER_LENGTH_def split: if_splits)
    with n b \<open>\<not> 0 < increment\<close> show False by simp
  qed
  with r b 2(6) show ?case by simp
qed

declare udp_write_chunked.simps [simp del]

definition udp_write_data ::
  "char list \<Rightarrow> udp_connection \<Rightarrow> (error_code \<times> udp_connection) option" where
  "udp_write_data data c = udp_write_chunked 0 (c\<lparr>uoutgoing_data := data\<rparr>)"

text \<open>
  What a write leaves to be seen, on either kind of connection: the send side of the
  socket, the scratch array and the outgoing vector.
\<close>

definition tcp_sent :: "tcp_connection \<Rightarrow> tx_channel \<times> char list \<times> char list" where
  "tcp_sent c = (tx (socket c), write_buffer c, outgoing_data c)"

definition udp_sent :: "udp_connection \<Rightarrow> tx_channel \<times> char list \<times> char list" where
  "udp_sent c = (utx (usocket c), uwrite_buffer c, uoutgoing_data c)"

text \<open>
  A datagram connection as its constructor leaves it, on a socket with the given queue,
  faults and send plan.
\<close>

definition new_udp_connection ::
  "(endpoint \<times> char list) list \<Rightarrow> nat option list \<Rightarrow> tx_outcome list \<Rightarrow> udp_connection" where
  "new_udp_connection dgrams fs plan =
     \<lparr>usocket = \<lparr>inbox = dgrams, faults = fs, utx = \<lparr>tx_plan = plan, wire = []\<rparr>\<rparr>,
      uwrite_buffer = replicate BUFFER_LENGTH (CHR 0x00),
      uoutgoing_data = []\<rparr>"

section \<open>tcp\_listener (transport/tcp\_listener.hpp)\<close>

text \<open>
  The listener's state, as far as its operations depend on it: whether the acceptor is
  open and the \<^verbatim>\<open>io_service\<close> stopped, the worker threads (\<^verbatim>\<open>threads_\<close>), the handler
  (\<^verbatim>\<open>connection_handler_\<close>, a \<^verbatim>\<open>std::function\<close>: \<open>None\<close> when empty, otherwise the
  handler's name), and the number of accept operations outstanding on the acceptor.
  \<open>handler_calls\<close> records every call of the handler: which handler, the error, and the
  connection or \<open>None\<close>.

  Closing the acceptor completes every outstanding accept with the error
  \<open>operation_aborted\<close>: the completion (the accept lambda) is posted to the
  \<^verbatim>\<open>io_service\<close>, where a worker runs it unless the \<^verbatim>\<open>io_service\<close> is stopped first.
  \<open>queued_completions\<close> counts the completions posted and not yet run, and \<open>schedule\<close>
  says, for each \<^verbatim>\<open>stop()\<close> to come that cancels an accept, whether a worker runs the
  completion before it sees the stop (none left: it does not).

  A \<^verbatim>\<open>std::thread\<close> object either represents no thread (default-constructed, or joined)
  or a running one; only the second is joinable.
\<close>

datatype thread = not_a_thread | running

record tcp_listener =
  acceptor_open :: bool
  ioservice_stopped :: bool
  threads :: "thread list"
  connection_handler :: "nat option"
  pending_accept :: nat
  handler_calls :: "(nat \<times> error_code \<times> nat option) list"
  queued_completions :: nat
  schedule :: "bool list"

definition THREADS :: nat where
  "THREADS = 2"

text \<open>The constructor: \<^verbatim>\<open>threads_(THREADS)\<close> holds default-constructed threads.\<close>

definition new_tcp_listener :: tcp_listener where
  "new_tcp_listener =
     \<lparr>acceptor_open = False, ioservice_stopped = False,
      threads = replicate THREADS not_a_thread,
      connection_handler = None, pending_accept = 0, handler_calls = [],
      queued_completions = 0, schedule = []\<rparr>"

text \<open>
  \<^verbatim>\<open>async_accept()\<close> makes a connection and arms one accept on the acceptor. Its completion
  lambda is \<open>accept_completed\<close> below.
\<close>

definition async_accept :: "tcp_listener \<Rightarrow> tcp_listener" where
  "async_accept l = l\<lparr>pending_accept := pending_accept l + 1\<rparr>"

text \<open>Calling a \<^verbatim>\<open>std::function\<close>: an empty one throws.\<close>

definition call_handler :: "error_code \<Rightarrow> nat option \<Rightarrow> tcp_listener \<Rightarrow> exn + tcp_listener" where
  "call_handler error connection l =
     (case connection_handler l of
        None \<Rightarrow> Inl bad_function_call
      | Some h \<Rightarrow> Inr (l\<lparr>handler_calls := handler_calls l @ [(h, error, connection)]\<rparr>))"

text \<open>
  How one accept ends: with a new connection (named by a number) or with an error.
  The completion lambda of \<^verbatim>\<open>async_accept\<close>:
  \<^verbatim>\<open>if (error != 0) handler(error, ptr()); else { handler(error, connection); async_accept(); }\<close>
\<close>

datatype accept_outcome = accepted nat | accept_failed nat

fun accept_completed :: "accept_outcome \<Rightarrow> tcp_listener \<Rightarrow> exn + tcp_listener" where
  "accept_completed (accept_failed e) l = call_handler (io_error e) None l"
| "accept_completed (accepted connection) l =
     (case call_handler no_error (Some connection) l of
        Inl x \<Rightarrow> Inl x
      | Inr l' \<Rightarrow> Inr (async_accept l'))"

text \<open>
  The reactor hands an outcome to an outstanding accept, which is then no longer
  outstanding; with none outstanding nothing is accepted and nothing is called.
  \<open>run_accepts\<close> hands over a sequence of outcomes, and stops at an exception.
\<close>

definition deliver :: "accept_outcome \<Rightarrow> tcp_listener \<Rightarrow> exn + tcp_listener" where
  "deliver ev l =
     (if pending_accept l = 0 then Inr l
      else accept_completed ev (l\<lparr>pending_accept := pending_accept l - 1\<rparr>))"

fun run_accepts :: "accept_outcome list \<Rightarrow> tcp_listener \<Rightarrow> exn + tcp_listener" where
  "run_accepts [] l = Inr l"
| "run_accepts (ev # evs) l =
     (case deliver ev l of Inl x \<Rightarrow> Inl x | Inr l' \<Rightarrow> run_accepts evs l')"

text \<open>
  The error of a cancelled operation (\<^verbatim>\<open>boost::asio::error::operation_aborted\<close>, 125), and
  the accept lambda run for \<open>n\<close> cancelled accepts: it passes that error to the handler
  and does not arm another accept.
\<close>

definition operation_aborted :: nat where
  "operation_aborted = 125"

fun run_cancelled :: "nat \<Rightarrow> tcp_listener \<Rightarrow> exn + tcp_listener" where
  "run_cancelled 0 l = Inr l"
| "run_cancelled (Suc n) l =
     (case accept_completed (accept_failed operation_aborted) l of
        Inl x \<Rightarrow> Inl x
      | Inr l' \<Rightarrow> run_cancelled n l')"

text \<open>
  \<^verbatim>\<open>start(handler)\<close>: sets the handler, resets the \<^verbatim>\<open>io_service\<close>, assigns a new running
  thread to every element of \<^verbatim>\<open>threads_\<close> (move-assignment to a joinable \<^verbatim>\<open>std::thread\<close>
  calls \<^verbatim>\<open>std::terminate\<close>), opens the acceptor (which throws when it is open already),
  and arms the first accept. Binding and listening are taken to succeed. The new workers
  run what an earlier \<^verbatim>\<open>stop()\<close> left queued in the \<^verbatim>\<open>io_service\<close>; the lambda reads
  \<^verbatim>\<open>connection_handler_\<close> when it runs, so it calls the handler just set. An exception
  that leaves a worker thread calls \<^verbatim>\<open>std::terminate\<close>.
\<close>

definition start :: "nat \<Rightarrow> tcp_listener \<Rightarrow> exn + tcp_listener" where
  "start handler l =
     (let l = l\<lparr>connection_handler := Some handler, ioservice_stopped := False\<rparr>
      in if running \<in> set (threads l) then Inl std_terminate
         else
           (let l = l\<lparr>threads := map (\<lambda>thread. running) (threads l)\<rparr>
            in case (if threads l = [] then Inr l
                     else run_cancelled (queued_completions l) (l\<lparr>queued_completions := 0\<rparr>)) of
                 Inl x \<Rightarrow> Inl std_terminate
               | Inr l \<Rightarrow>
                   if acceptor_open l then Inl (system_error ''Already open'')
                   else Inr (async_accept (l\<lparr>acceptor_open := True\<rparr>))))"

text \<open>
  \<^verbatim>\<open>thread.join()\<close> for every thread in turn. \<^verbatim>\<open>std::thread::join\<close> throws
  \<^verbatim>\<open>std::system_error\<close> (invalid argument) when the thread is not joinable; a running
  worker returns from \<^verbatim>\<open>run()\<close> once the \<^verbatim>\<open>io_service\<close> is stopped, and is joined. The
  result holds the threads as the loop leaves them.
\<close>

fun join_all :: "thread list \<Rightarrow> (exn + unit) \<times> thread list" where
  "join_all [] = (Inr (), [])"
| "join_all (not_a_thread # ts) = (Inl (system_error ''Invalid argument''), not_a_thread # ts)"
| "join_all (running # ts) = (case join_all ts of (r, ts') \<Rightarrow> (r, not_a_thread # ts'))"

text \<open>
  \<^verbatim>\<open>acceptor_.close()\<close> with accepts outstanding: they are no longer outstanding, and
  their completions either run at once on a worker (with the handler still set, since
  \<^verbatim>\<open>stop()\<close> clears it last) or stay queued, as the schedule says.
\<close>

definition cancel_accepts :: "tcp_listener \<Rightarrow> exn + tcp_listener" where
  "cancel_accepts l =
     (let n = pending_accept l;
          l = l\<lparr>pending_accept := 0\<rparr>
      in if n = 0 then Inr l
         else case schedule l of
                [] \<Rightarrow> Inr (l\<lparr>queued_completions := queued_completions l + n\<rparr>)
              | b # bs \<Rightarrow>
                  if b \<and> running \<in> set (threads l) then run_cancelled n (l\<lparr>schedule := bs\<rparr>)
                  else Inr (l\<lparr>schedule := bs,
                             queued_completions := queued_completions l + n\<rparr>))"

text \<open>
  \<^verbatim>\<open>stop()\<close>: closes the acceptor, stops the \<^verbatim>\<open>io_service\<close>, joins the threads and,
  when no join threw, clears the handler.
\<close>

definition stop :: "tcp_listener \<Rightarrow> (exn + unit) \<times> tcp_listener" where
  "stop l =
     (let l = l\<lparr>acceptor_open := False\<rparr>
      in case cancel_accepts l of
           Inl x \<Rightarrow> (Inl std_terminate, l)
         | Inr l \<Rightarrow>
             (let l = l\<lparr>ioservice_stopped := True\<rparr>
              in case join_all (threads l) of
                   (Inl x, ts) \<Rightarrow> (Inl x, l\<lparr>threads := ts\<rparr>)
                 | (Inr u, ts) \<Rightarrow> (Inr (), l\<lparr>threads := ts, connection_handler := None\<rparr>)))"

text \<open>
  The destructor \<^verbatim>\<open>~tcp_listener() { stop(); }\<close>. A destructor is \<^verbatim>\<open>noexcept\<close>: an
  exception that leaves it calls \<^verbatim>\<open>std::terminate\<close>. What is still queued in the
  \<^verbatim>\<open>io_service\<close> is destroyed without being run.
\<close>

definition destructor :: "tcp_listener \<Rightarrow> exn + unit" where
  "destructor l = (case stop l of (Inl x, l') \<Rightarrow> Inl std_terminate | (Inr u, l') \<Rightarrow> Inr ())"

section \<open>Facts about the queue\<close>

lemma fold_push:
  "fold push xs q = q\<lparr>q_size := q_size q + int (length xs), q_container := q_container q @ xs\<rparr>"
  by (induction xs arbitrary: q) (simp_all add: push_def do_push_def)

lemma arrivals_stored: "c \<noteq> [] \<Longrightarrow> arrivals ws c = c"
proof (cases ws)
  case Nil
  then show ?thesis by simp
next
  case (Cons w ws')
  assume "c \<noteq> []"
  with Cons show ?thesis by (cases w) simp_all
qed

lemma not_expired_arrivals: "\<not> expired ws c \<Longrightarrow> arrivals ws c \<noteq> []"
proof (induction ws arbitrary: c)
  case Nil
  then show ?case by simp
next
  case (Cons w ws)
  then show ?case by (cases w) (auto split: if_splits)
qed

lemma timed_wait_nonempty_arrivals:
  "timed_wait_nonempty ws q =
     (\<not> expired ws (q_container q),
      q\<lparr>q_size := q_size q + int (length (arrivals ws (q_container q))) - int (length (q_container q)),
        q_container := arrivals ws (q_container q)\<rparr>)"
proof (induction ws arbitrary: q)
  case Nil
  show ?case by simp
next
  case (Cons w ws)
  show ?case
  proof (cases "q_container q = []")
    case False
    then show ?thesis by (cases w) simp_all
  next
    case True
    show ?thesis
    proof (cases w)
      case (timed_out xs)
      with True show ?thesis by (simp add: fold_push)
    next
      case (notified xs)
      with True show ?thesis
        using Cons.IH [of "fold push xs q"] by (simp add: fold_push)
    qed
  qed
qed

text \<open>
  What the two timed forms do on every sequence of wake-ups. When the wait ends on the
  deadline, \<^verbatim>\<open>pop(result, timeout_ms)\<close> returns false with \<open>result\<close> untouched and
  \<^verbatim>\<open>pop(timeout_ms)\<close> throws, and the queue holds everything that was pushed. Otherwise the
  front element is returned and exactly the elements behind it are left. No element is
  lost or duplicated in either case.
\<close>

lemma pop_timeout_outcome:
  fixes q :: "'a concurrent_queue" and ws :: "'a wakeup list"
  defines "arr \<equiv> arrivals ws (q_container q)"
  defines "q1 \<equiv> q\<lparr>q_size := q_size q + int (length arr) - int (length (q_container q)),
                  q_container := arr\<rparr>"
  shows "expired ws (q_container q) \<Longrightarrow>
           pop_result_timeout result ws q = Some (False, result, q1)
         \<and> pop_timeout dflt ws q = Some (Inl timeout_exception, q1)"
    and "\<not> expired ws (q_container q) \<Longrightarrow>
           arr \<noteq> []
         \<and> pop_result_timeout result ws q =
             Some (True, hd arr, q1\<lparr>q_container := tl arr, q_size := q_size q1 - 1\<rparr>)
         \<and> pop_timeout dflt ws q =
             Some (Inr (hd arr), q1\<lparr>q_container := tl arr, q_size := q_size q1 - 1\<rparr>)"
proof -
  assume e: "expired ws (q_container q)"
  then have w: "timed_wait_nonempty ws q = (False, q1)"
    by (simp add: timed_wait_nonempty_arrivals arr_def q1_def)
  show "pop_result_timeout result ws q = Some (False, result, q1)
      \<and> pop_timeout dflt ws q = Some (Inl timeout_exception, q1)"
    by (simp add: pop_timeout_def pop_result_timeout_def w)
next
  assume e: "\<not> expired ws (q_container q)"
  then have w: "timed_wait_nonempty ws q = (True, q1)"
    by (simp add: timed_wait_nonempty_arrivals arr_def q1_def)
  from not_expired_arrivals [OF e] obtain x xs where a: "arr = x # xs"
    unfolding arr_def by (cases "arrivals ws (q_container q)") auto
  then have c: "q_container q1 = x # xs" by (simp add: q1_def)
  show "arr \<noteq> []
      \<and> pop_result_timeout result ws q =
          Some (True, hd arr, q1\<lparr>q_container := tl arr, q_size := q_size q1 - 1\<rparr>)
      \<and> pop_timeout dflt ws q =
          Some (Inr (hd arr), q1\<lparr>q_container := tl arr, q_size := q_size q1 - 1\<rparr>)"
    using a c by (simp add: pop_timeout_def pop_result_timeout_def w)
qed


text \<open>
  Pushing and popping keep the counter equal to the number of stored elements.
\<close>

lemma push_keeps_count:
  "q_size q = int (length (q_container q)) \<Longrightarrow>
   q_size (push x q) = int (length (q_container (push x q)))"
  by (simp add: push_def do_push_def)

lemma do_pop_keeps_count:
  "q_size q = int (length (q_container q)) \<Longrightarrow> do_pop q = Some (x, q') \<Longrightarrow>
   q_size q' = int (length (q_container q'))"
  by (auto split: list.splits)

text \<open>
  C10. After \<^verbatim>\<open>push(x)\<close> and \<^verbatim>\<open>clear()\<close> on a new queue nothing is stored, yet
  \<^verbatim>\<open>size()\<close> is still 1 and \<^verbatim>\<open>empty()\<close> is false: \<^verbatim>\<open>clear()\<close> swaps the container
  away and leaves the counter as it was, on every queue.
\<close>

theorem clear_leaves_count:
  "q_container (clear (push x new_queue)) = []
   \<and> size_q (clear (push x new_queue)) = 1
   \<and> empty_q (clear (push x new_queue)) = False
   \<and> q_size (clear q) = q_size q"
  by (simp add: clear_def push_def do_push_def new_queue_def size_q_def empty_q_def)

section \<open>Facts about the synchronizer\<close>

















section \<open>Facts about the sockets\<close>

lemma async_read_loop_total:
  "length got < m \<Longrightarrow> m \<le> bytes \<Longrightarrow> m - length got \<le> length (delivered (rx sock)) \<Longrightarrow>
   fst (async_read_loop bytes m sock got) = no_error"
proof (induction bytes m sock got rule: async_read_loop.induct)
  case (1 bytes m sock got)
  obtain ec bs1 s1 where rs: "read_some sock (m - length got) = (ec, bs1, s1)"
    by (cases "read_some sock (m - length got)") auto
  have ne: "delivered (rx sock) \<noteq> []" using "1.prems" by auto
  have e: "ec = no_error" using rs ne read_some_error_delivered by blast
  have d: "delivered (rx sock) = bs1 @ delivered (rx s1)"
    using rs e read_some_ok_delivered by blast
  show ?case
  proof (cases "(ec = no_error \<and> bs1 = []) \<or> m \<le> length (got @ bs1)
                 \<or> read_done bytes ec (length (got @ bs1))")
    case True
    then have res: "async_read_loop bytes m sock got = (ec, got @ bs1, s1)"
      using rs by (subst async_read_loop.simps) auto
    then show ?thesis using e by simp
  next
    case False
    from False have res: "async_read_loop bytes m sock got = async_read_loop bytes m s1 (got @ bs1)"
      using rs by (subst async_read_loop.simps) auto
    have lt: "length (got @ bs1) < m" using False by auto
    have "m - length (got @ bs1) \<le> length (delivered (rx s1))"
      using "1.prems"(3) d by simp
    from "1.IH" [OF rs [symmetric] refl _ _ lt "1.prems"(2) this] False res
    show ?thesis by auto
  qed
qed

lemma async_read_total:
  assumes "m \<le> bytes" and "m \<le> length (delivered (rx sock))"
  shows "fst (async_read bytes m sock) = no_error"
proof (cases "read_done bytes no_error 0 \<or> m = 0")
  case True
  then show ?thesis by (auto simp: async_read_def)
next
  case False
  then have "length ([]::char list) < m" by simp
  from async_read_loop_total [OF this assms(1)] assms(2)
  have "fst (async_read_loop bytes m sock []) = no_error" by simp
  with False show ?thesis by (auto simp: async_read_def split: prod.splits)
qed

section \<open>Facts about reading\<close>

lemma memcpy_Some:
  "d + n \<le> length dst \<Longrightarrow> s + n \<le> length src \<Longrightarrow>
   memcpy dst d src s n = Some (take d dst @ take n (drop s src) @ drop (d + n) dst)"
  by (simp add: memcpy_def)

lemma read_chunked_step:
  "async_read bytes (if bytes < BUFFER_LENGTH then bytes else BUFFER_LENGTH) (socket c)
     = (no_error, got, sock') \<Longrightarrow>
   memcpy buffer read_bytes (got @ drop (length got) (read_buffer c)) 0 (length got) = Some buffer' \<Longrightarrow>
   read_chunked bytes buffer read_bytes c =
     (if bytes - length got > 0
      then read_chunked (bytes - length got) buffer' (read_bytes + length got)
             (c\<lparr>socket := sock', read_buffer := got @ drop (length got) (read_buffer c)\<rparr>)
      else Some (no_error, buffer',
             c\<lparr>socket := sock', read_buffer := got @ drop (length got) (read_buffer c)\<rparr>))"
  by (subst read_chunked.simps) (simp add: Let_def)


lemma read_chunked_ok:
  "bytes \<le> length (delivered (rx (socket c))) \<Longrightarrow> read_bytes + bytes \<le> length buffer \<Longrightarrow>
   length (read_buffer c) = BUFFER_LENGTH \<Longrightarrow>
   \<exists>c'. read_chunked bytes buffer read_bytes c =
          Some (no_error,
                take read_bytes buffer @ take bytes (delivered (rx (socket c)))
                  @ drop (read_bytes + bytes) buffer, c')
      \<and> delivered (rx (socket c')) = drop bytes (delivered (rx (socket c)))
      \<and> rx_log (socket c') = rx_log (socket c) @ map (\<lambda>k. (k, k)) (chunk_lengths bytes)
      \<and> tx (socket c') = tx (socket c)
      \<and> length (read_buffer c') = BUFFER_LENGTH
      \<and> write_buffer c' = write_buffer c
      \<and> incoming_data c' = incoming_data c
      \<and> outgoing_data c' = outgoing_data c"
proof (induction bytes buffer read_bytes c rule: read_chunked.induct)
  case (1 bytes buffer read_bytes c)
  define m where "m = (if bytes < BUFFER_LENGTH then bytes else BUFFER_LENGTH)"
  define D where "D = delivered (rx (socket c))"
  have mb: "m \<le> bytes" and mB: "m \<le> BUFFER_LENGTH" by (auto simp: m_def)
  have mD: "m \<le> length D" using mb "1.prems"(1) by (simp add: D_def)
  obtain ec got sock' where ar: "async_read bytes m (socket c) = (ec, got, sock')"
    by (cases "async_read bytes m (socket c)") auto
  from async_read_total [OF mb, of "socket c"] mD ar have ec: "ec = no_error"
    by (simp add: D_def)
  from async_read_ok [OF ar [unfolded ec] mb]
  have lg: "length got = m" and dg: "D = got @ delivered (rx sock')"
    and txs: "tx sock' = tx (socket c)" and lg': "rx_log sock' = rx_log (socket c) @ [(m, m)]"
    by (simp_all add: D_def)
  have got: "got = take m D" using dg lg by (metis append_eq_conv_conj)
  have rest: "delivered (rx sock') = drop m D" using dg lg by (metis append_eq_conv_conj)
  define c1 where "c1 = c\<lparr>socket := sock', read_buffer := got @ drop (length got) (read_buffer c)\<rparr>"
  define buffer1 where "buffer1 = take read_bytes buffer @ got @ drop (read_bytes + m) buffer"
  have rb1: "length (read_buffer c1) = BUFFER_LENGTH"
    using lg mB "1.prems"(3) by (simp add: c1_def)
  have mc: "memcpy buffer read_bytes (got @ drop (length got) (read_buffer c)) 0 (length got)
      = Some buffer1"
    using "1.prems"(2,3) mb mB lg
    by (simp add: memcpy_def buffer1_def)
  have mc1: "memcpy buffer read_bytes (read_buffer c1) 0 (length got) = Some buffer1"
    using mc by (simp add: c1_def)
  note step = read_chunked_step [OF ar [unfolded ec m_def] mc, folded c1_def]
  have lb1: "length buffer1 = length buffer"
    using "1.prems"(2) mb lg by (simp add: buffer1_def)
  show ?case
  proof (cases "bytes - length got > 0")
    case False
    then have bm: "bytes = m" using lg mb by simp
    have unf: "read_chunked bytes buffer read_bytes c = Some (no_error, buffer1, c1)"
      using step False by simp
    have cl: "chunk_lengths bytes = [m]"
      using bm mB by (subst chunk_lengths.simps) simp
    show ?thesis
      using unf cl bm got rest lg' txs rb1
      by (simp add: buffer1_def c1_def D_def)
  next
    case True
    then have bm: "m < bytes" using lg by simp
    then have mBL: "m = BUFFER_LENGTH" by (auto simp: m_def split: if_splits)
    have unf: "read_chunked bytes buffer read_bytes c
        = read_chunked (bytes - length got) buffer1 (read_bytes + length got) c1"
      using step True by simp
    have p1: "bytes - length got \<le> length (delivered (rx (socket c1)))"
      using "1.prems"(1) rest lg by (simp add: c1_def D_def)
    have p2: "read_bytes + length got + (bytes - length got) \<le> length buffer1"
      using "1.prems"(2) lb1 lg mb by simp
    from "1.IH" [OF ar [unfolded m_def, symmetric] refl refl c1_def [unfolded lg [symmetric]] _ mc1 True p1 p2 rb1] ec
    obtain c' where ih:
      "read_chunked (bytes - length got) buffer1 (read_bytes + length got) c1 =
         Some (no_error,
               take (read_bytes + length got) buffer1
                 @ take (bytes - length got) (delivered (rx (socket c1)))
                 @ drop (read_bytes + length got + (bytes - length got)) buffer1, c')"
      "delivered (rx (socket c')) = drop (bytes - length got) (delivered (rx (socket c1)))"
      "rx_log (socket c') = rx_log (socket c1) @ map (\<lambda>k. (k, k)) (chunk_lengths (bytes - length got))"
      "tx (socket c') = tx (socket c1)"
      "length (read_buffer c') = BUFFER_LENGTH"
      "write_buffer c' = write_buffer c1"
      "incoming_data c' = incoming_data c1"
      "outgoing_data c' = outgoing_data c1"
      by auto
    have e1: "take (read_bytes + length got) buffer1 = take read_bytes buffer @ got"
      using "1.prems"(2) mb lg by (simp add: buffer1_def)
    have e2: "got @ take (bytes - length got) (delivered (rx (socket c1))) = take bytes D"
      using lg mb rest got by (simp add: c1_def take_add [symmetric] del: take_add) 
    have e3: "drop (read_bytes + length got + (bytes - length got)) buffer1
        = drop (read_bytes + bytes) buffer"
      using "1.prems"(2) mb lg by (simp add: buffer1_def add.commute)
    have cl: "chunk_lengths bytes = m # chunk_lengths (bytes - length got)"
      using bm mBL lg by (subst chunk_lengths.simps) simp
    have e4: "drop (bytes - length got) (delivered (rx (socket c1))) = drop bytes D"
      using rest lg mb by (simp add: c1_def)
    have r: "read_chunked bytes buffer read_bytes c =
        Some (no_error, take read_bytes buffer @ take bytes D @ drop (read_bytes + bytes) buffer, c')"
      unfolding unf ih(1) e1 e3 using e2 by simp
    have l: "rx_log (socket c') = rx_log (socket c) @ map (\<lambda>k. (k, k)) (chunk_lengths bytes)"
      unfolding ih(3) cl using lg' by (simp add: c1_def)
    show ?thesis
      using r l ih(2,4-8) e4 txs
      by (simp add: c1_def D_def)
  qed
qed

lemma chunk_lengths_bound: "\<forall>k \<in> set (chunk_lengths n). k \<le> BUFFER_LENGTH"
proof (induction n rule: chunk_lengths.induct)
  case (1 n)
  show ?case
  proof (cases "n \<le> BUFFER_LENGTH")
    case True
    then show ?thesis by (subst chunk_lengths.simps) simp
  next
    case False
    with 1 show ?thesis by (subst chunk_lengths.simps) simp
  qed
qed

lemma chunk_lengths_sum: "sum_list (chunk_lengths n) = n"
proof (induction n rule: chunk_lengths.induct)
  case (1 n)
  show ?case
  proof (cases "n \<le> BUFFER_LENGTH")
    case True
    then show ?thesis by (subst chunk_lengths.simps) simp
  next
    case False
    with 1 show ?thesis by (subst chunk_lengths.simps) simp
  qed
qed

text \<open>
  C1. When the socket delivers at least \<open>n\<close> bytes before it fails or closes, in
  segments of whatever sizes, \<^verbatim>\<open>read(n)\<close> calls back once, without error, with exactly
  the first \<open>n\<close> bytes delivered, in order, and leaves the rest for the next read. It is
  made of receives into the scratch array of \<open>min(remaining, BUFFER_LENGTH)\<close> bytes
  each, every one filled completely; their sizes are at most \<open>BUFFER_LENGTH\<close> and add
  up to \<open>n\<close>.
\<close>

theorem read_exactly_n:
  assumes "n \<le> length (delivered (rx (socket c)))"
    and "length (read_buffer c) = BUFFER_LENGTH"
  shows "\<exists>c'. read n c = Some (no_error, take n (delivered (rx (socket c))), c')
           \<and> length (take n (delivered (rx (socket c)))) = n
           \<and> delivered (rx (socket c')) = drop n (delivered (rx (socket c)))
           \<and> rx_log (socket c') = rx_log (socket c) @ map (\<lambda>k. (k, k)) (chunk_lengths n)
           \<and> (\<forall>k \<in> set (chunk_lengths n). k \<le> BUFFER_LENGTH)
           \<and> sum_list (chunk_lengths n) = n"
proof -
  define c1 where "c1 = c\<lparr>incoming_data := resize n (incoming_data c)\<rparr>"
  have l: "length (resize n (incoming_data c)) = n"
    by (simp add: resize_def)
  have "n \<le> length (delivered (rx (socket c1)))" "0 + n \<le> length (incoming_data c1)"
    "length (read_buffer c1) = BUFFER_LENGTH"
    using assms l by (simp_all add: c1_def)
  from read_chunked_ok [OF this]
  obtain c' where r: "read_chunked n (incoming_data c1) 0 c1 =
       Some (no_error, take 0 (incoming_data c1) @ take n (delivered (rx (socket c1)))
               @ drop (0 + n) (incoming_data c1), c')"
    and d: "delivered (rx (socket c')) = drop n (delivered (rx (socket c1)))"
    and g: "rx_log (socket c') = rx_log (socket c1) @ map (\<lambda>k. (k, k)) (chunk_lengths n)"
    by blast
  have "read n c = Some (no_error, take n (delivered (rx (socket c))), c'\<lparr>incoming_data := []\<rparr>)"
    using r l by (simp add: read_def read_into_def Let_def c1_def [symmetric]) (simp add: c1_def)
  then show ?thesis
    using d g assms(1) chunk_lengths_bound [of n] chunk_lengths_sum [of n]
    by (simp add: c1_def)
qed

theorem read_exactly_n_witness:
  "\<exists>c'. read 1025 (new_tcp_connection
            [rx_data (replicate 600 (CHR ''a'')), rx_data (replicate 600 (CHR ''b''))] [])
          = Some (no_error, replicate 600 (CHR ''a'') @ replicate 425 (CHR ''b''), c')
      \<and> delivered (rx (socket c')) = replicate 175 (CHR ''b'')"
proof -
  let ?c = "new_tcp_connection
      [rx_data (replicate 600 (CHR ''a'')), rx_data (replicate 600 (CHR ''b''))] []"
  have d: "delivered (rx (socket ?c)) = replicate 600 (CHR ''a'') @ replicate 600 (CHR ''b'')"
    by (simp add: new_tcp_connection_def)
  have h1: "1025 \<le> length (delivered (rx (socket ?c)))"
    by (simp add: d)
  have h2: "length (read_buffer ?c) = BUFFER_LENGTH"
    by (simp add: new_tcp_connection_def)
  from read_exactly_n [OF h1 h2]
  obtain c' where "read 1025 ?c = Some (no_error, take 1025 (delivered (rx (socket ?c))), c')"
    and "delivered (rx (socket c')) = drop 1025 (delivered (rx (socket ?c)))"
    by blast
  then show ?thesis
    by (simp add: d)
qed









section \<open>Facts about writing\<close>

lemma write_chunked_step:
  "increment = (if length (outgoing_data c) - sent < BUFFER_LENGTH
                then length (outgoing_data c) - sent else BUFFER_LENGTH) \<Longrightarrow>
   memcpy (write_buffer c) 0 (outgoing_data c) sent increment = Some wb \<Longrightarrow>
   async_write (tx (socket c)) (take increment wb) = (ec, n, ch') \<Longrightarrow>
   write_chunked sent c =
     (if ec \<noteq> no_error \<or> sent + n = length (outgoing_data c)
      then Some (ec, c\<lparr>write_buffer := wb, socket := (socket c)\<lparr>tx := ch'\<rparr>\<rparr>)
      else write_chunked (sent + n) (c\<lparr>write_buffer := wb, socket := (socket c)\<lparr>tx := ch'\<rparr>\<rparr>))"
  by (subst write_chunked.simps) (simp add: Let_def)

lemma write_chunked_sends:
  "sent \<le> length (outgoing_data c) \<Longrightarrow> length (write_buffer c) = BUFFER_LENGTH \<Longrightarrow>
   \<exists>ec c' new.
      write_chunked sent c = Some (ec, c')
    \<and> wire (tx (socket c')) = wire (tx (socket c)) @ new
    \<and> (\<forall>ch \<in> set new. length ch \<le> BUFFER_LENGTH)
    \<and> (\<exists>k. concat new = take k (drop sent (outgoing_data c)))
    \<and> (ec = no_error \<longrightarrow> concat new = drop sent (outgoing_data c))
    \<and> ((\<forall>out \<in> set (tx_plan (tx (socket c))). out = tx_ok) \<longrightarrow> ec = no_error)
    \<and> outgoing_data c' = outgoing_data c
    \<and> length (write_buffer c') = BUFFER_LENGTH
    \<and> rx (socket c') = rx (socket c) \<and> rx_log (socket c') = rx_log (socket c)
    \<and> read_buffer c' = read_buffer c \<and> incoming_data c' = incoming_data c"
proof (induction sent c rule: write_chunked.induct)
  case (1 sent c)
  define out where "out = outgoing_data c"
  define inc where "inc = (if length out - sent < BUFFER_LENGTH then length out - sent
                           else BUFFER_LENGTH)"
  define chunk where "chunk = take inc (drop sent out)"
  define wb where "wb = chunk @ drop inc (write_buffer c)"
  have iB: "inc \<le> BUFFER_LENGTH" and io: "sent + inc \<le> length out"
    using "1.prems"(1) by (auto simp: inc_def out_def)
  have lc: "length chunk = inc" using io by (simp add: chunk_def)
  have mc: "memcpy (write_buffer c) 0 out sent inc = Some wb"
    using iB io "1.prems"(2) by (simp add: memcpy_def wb_def chunk_def)
  have tw: "take inc wb = chunk" using lc by (simp add: wb_def)
  have lwb: "length wb = BUFFER_LENGTH" using lc iB "1.prems"(2) by (simp add: wb_def)
  obtain ec n ch' where aw: "async_write (tx (socket c)) chunk = (ec, n, ch')"
    by (cases "async_write (tx (socket c)) chunk") auto
  define c1 where "c1 = c\<lparr>write_buffer := wb, socket := (socket c)\<lparr>tx := ch'\<rparr>\<rparr>"
  have step: "write_chunked sent c =
     (if ec \<noteq> no_error \<or> sent + n = length out then Some (ec, c1)
      else write_chunked (sent + n) c1)"
  proof -
    have i: "inc = (if length (outgoing_data c) - sent < BUFFER_LENGTH
                    then length (outgoing_data c) - sent else BUFFER_LENGTH)"
      unfolding inc_def out_def ..
    have m: "memcpy (write_buffer c) 0 (outgoing_data c) sent inc = Some wb"
      using mc unfolding out_def .
    have a: "async_write (tx (socket c)) (take inc wb) = (ec, n, ch')"
      using aw unfolding tw .
    show ?thesis
      using write_chunked_step [OF i m a] unfolding c1_def out_def .
  qed
  have fr: "outgoing_data c1 = out" "length (write_buffer c1) = BUFFER_LENGTH"
    "rx (socket c1) = rx (socket c)" "rx_log (socket c1) = rx_log (socket c)"
    "read_buffer c1 = read_buffer c" "incoming_data c1 = incoming_data c"
    "tx (socket c1) = ch'"
    using lwb by (simp_all add: c1_def out_def)
  consider (empty_chunk) "chunk = []"
    | (failed) e k plan where "chunk \<noteq> []" "tx_plan (tx (socket c)) = tx_error e k # plan"
    | (whole) "chunk \<noteq> []" "ec = no_error" "n = inc"
        "wire ch' = wire (tx (socket c)) @ [chunk]"
        "set (tx_plan ch') \<subseteq> set (tx_plan (tx (socket c)))"
    using aw lc
    by (cases "tx_plan (tx (socket c))"; cases "hd (tx_plan (tx (socket c)))")
       (auto simp: async_write_def subset_insertI split: if_splits)
  then show ?case
  proof cases
    case empty_chunk
    then have "inc = 0" using lc by simp
    then have s: "sent = length out" using "1.prems"(1)
      by (auto simp: inc_def out_def BUFFER_LENGTH_def split: if_splits)
    have "async_write (tx (socket c)) [] = (ec, n, ch')"
      using empty_chunk aw by simp
    then have a: "ec = no_error" "n = 0" "ch' = tx (socket c)"
      by (simp_all add: async_write_def)
    from step a s have "write_chunked sent c = Some (no_error, c1)" by simp
    then show ?thesis using fr a s
      by (intro exI [of _ no_error] exI [of _ c1] exI [of _ "[]"]) (simp add: out_def)
  next
    case failed
    with aw have a: "ec = io_error e" "wire ch' = wire (tx (socket c)) @ [take k chunk]"
      by (auto simp: async_write_def)
    from step a have w: "write_chunked sent c = Some (ec, c1)" by simp
    have "take k chunk = take (min k inc) (drop sent out)"
      by (simp add: chunk_def min.commute)
    then have p: "\<exists>j. concat [take k chunk] = take j (drop sent (outgoing_data c))"
      unfolding out_def by (intro exI [of _ "min k inc"]) simp
    have "length (take k chunk) \<le> BUFFER_LENGTH" using lc iB by simp
    then show ?thesis using w fr a failed(2) p
      by (intro exI [of _ ec] exI [of _ c1] exI [of _ "[take k chunk]"]) (simp add: out_def)
  next
    case whole
    have lci: "length chunk \<le> BUFFER_LENGTH" using lc iB by simp
    show ?thesis
    proof (cases "sent + n = length out")
      case True
      with step whole(2) have w: "write_chunked sent c = Some (no_error, c1)" by simp
      from True whole(3) have "chunk = drop sent out"
        using io by (simp add: chunk_def)
      then have p: "concat [chunk] = drop sent (outgoing_data c)"
        "\<exists>k. concat [chunk] = take k (drop sent (outgoing_data c))"
        unfolding out_def by (simp, intro exI [of _ "length out"], simp add: out_def)
      show ?thesis using w fr whole(4) lci p
        by (intro exI [of _ no_error] exI [of _ c1] exI [of _ "[chunk]"]) (simp add: out_def)
    next
      case False
      with step whole(2) have w: "write_chunked sent c = write_chunked (sent + n) c1" by simp
      have i: "inc = (if length (outgoing_data c) - sent < BUFFER_LENGTH
                      then length (outgoing_data c) - sent else BUFFER_LENGTH)"
        unfolding inc_def out_def ..
      have m: "memcpy (write_buffer c) 0 (outgoing_data c) sent inc = Some wb"
        using mc unfolding out_def .
      have a: "(ec, n, ch') = async_write (tx (socket c)) (take inc wb)"
        using aw unfolding tw by simp
      have cnd: "\<not> (ec \<noteq> no_error \<or> sent + n = length (outgoing_data c1))"
        using False whole(2) fr(1) by simp
      have p1: "sent + n \<le> length (outgoing_data c1)"
        using io whole(3) fr(1) by simp
      from "1.IH" [of "length (outgoing_data c) - sent" inc wb ec "(n, ch')" n ch' c1,
          OF refl i m a refl c1_def cnd p1 fr(2)]
      obtain ec2 c2 new2 where ih:
        "write_chunked (sent + n) c1 = Some (ec2, c2)"
        "wire (tx (socket c2)) = wire (tx (socket c1)) @ new2"
        "\<forall>ch \<in> set new2. length ch \<le> BUFFER_LENGTH"
        "\<exists>k. concat new2 = take k (drop (sent + n) (outgoing_data c1))"
        "ec2 = no_error \<longrightarrow> concat new2 = drop (sent + n) (outgoing_data c1)"
        "(\<forall>out \<in> set (tx_plan (tx (socket c1))). out = tx_ok) \<longrightarrow> ec2 = no_error"
        "outgoing_data c2 = outgoing_data c1"
        "length (write_buffer c2) = BUFFER_LENGTH"
        "rx (socket c2) = rx (socket c1)" "rx_log (socket c2) = rx_log (socket c1)"
        "read_buffer c2 = read_buffer c1" "incoming_data c2 = incoming_data c1"
        by blast
      from ih(4) obtain k where k: "concat new2 = take k (drop (sent + inc) out)"
        using fr(1) whole(3) by auto
      have "drop (sent + inc) out = drop inc (drop sent out)"
        by (simp add: add.commute)
      then have split: "drop sent out = chunk @ drop (sent + inc) out"
        by (simp add: chunk_def del: drop_drop)
      have pre: "concat (chunk # new2) = take (inc + k) (drop sent out)"
        using k lc by (simp add: split)
      have all: "ec2 = no_error \<longrightarrow> concat (chunk # new2) = drop sent out"
        using ih(5) fr(1) whole(3) split by simp
      have ok: "(\<forall>out \<in> set (tx_plan (tx (socket c))). out = tx_ok) \<longrightarrow> ec2 = no_error"
        using ih(6) whole(5) fr(7) by auto
      have wi: "wire (tx (socket c2)) = wire (tx (socket c)) @ chunk # new2"
        using ih(2) whole(4) fr(7) by simp
      have bd: "\<forall>ch \<in> set (chunk # new2). length ch \<le> BUFFER_LENGTH"
        using ih(3) lci by simp
      have pre': "\<exists>j. concat (chunk # new2) = take j (drop sent (outgoing_data c))"
        using pre unfolding out_def by blast
      show ?thesis
        using w ih(1) wi bd pre' all ok ih(7-12) fr
        by (intro exI [of _ ec2] exI [of _ c2] exI [of _ "chunk # new2"]) (simp add: out_def)
    qed
  qed
qed

text \<open>
  C3. \<^verbatim>\<open>write(data)\<close> always calls back once. Every physical send carries at most
  \<open>BUFFER_LENGTH\<close> bytes, taken from the write scratch array into which the next
  unsent bytes were copied; what has been sent is at every moment a prefix of \<open>data\<close>;
  and when the callback reports no error the chunks sent, concatenated, are exactly
  \<open>data\<close>. When no send fails the callback reports no error. This holds for every
  \<open>data\<close>, the empty one included (nothing is sent for it).
\<close>

theorem write_sends_entire_buffer:
  assumes "length (write_buffer c) = BUFFER_LENGTH"
  shows "\<exists>ec c' new.
      write_data data c = Some (ec, c')
    \<and> wire (tx (socket c')) = wire (tx (socket c)) @ new
    \<and> (\<forall>ch \<in> set new. length ch \<le> BUFFER_LENGTH)
    \<and> (\<exists>k. concat new = take k data)
    \<and> (ec = no_error \<longrightarrow> concat new = data)
    \<and> ((\<forall>out \<in> set (tx_plan (tx (socket c))). out = tx_ok) \<longrightarrow> ec = no_error)"
proof -
  define c0 where "c0 = c\<lparr>outgoing_data := data\<rparr>"
  have "0 \<le> length (outgoing_data c0)" "length (write_buffer c0) = BUFFER_LENGTH"
    using assms by (simp_all add: c0_def)
  from write_chunked_sends [OF this]
  obtain ec c' new where
    "write_chunked 0 c0 = Some (ec, c')"
    "wire (tx (socket c')) = wire (tx (socket c0)) @ new"
    "\<forall>ch \<in> set new. length ch \<le> BUFFER_LENGTH"
    "\<exists>k. concat new = take k (drop 0 (outgoing_data c0))"
    "ec = no_error \<longrightarrow> concat new = drop 0 (outgoing_data c0)"
    "(\<forall>out \<in> set (tx_plan (tx (socket c0))). out = tx_ok) \<longrightarrow> ec = no_error"
    by blast
  then show ?thesis
    by (intro exI [of _ ec] exI [of _ c'] exI [of _ new]) (simp add: write_data_def c0_def)
qed

theorem write_sends_entire_buffer_witness:
  "\<exists>c' new.
      write_data (replicate 1025 (CHR ''x'')) (new_tcp_connection [] [tx_ok, tx_ok])
        = Some (no_error, c')
    \<and> wire (tx (socket c')) = new
    \<and> concat new = replicate 1025 (CHR ''x'')"
proof -
  let ?c = "new_tcp_connection [] [tx_ok, tx_ok]"
  have l: "length (write_buffer ?c) = BUFFER_LENGTH"
    by (simp add: new_tcp_connection_def)
  have p: "\<forall>out \<in> set (tx_plan (tx (socket ?c))). out = tx_ok"
    by (simp add: new_tcp_connection_def)
  have w: "wire (tx (socket ?c)) = []"
    by (simp add: new_tcp_connection_def)
  from write_sends_entire_buffer [OF l, of "replicate 1025 (CHR ''x'')"] p w
  show ?thesis by auto
qed

section \<open>Facts about the datagram connection\<close>

lemma write_chunked_none:
  "memcpy (write_buffer c) 0 (outgoing_data c) sent
     (if length (outgoing_data c) - sent < BUFFER_LENGTH
      then length (outgoing_data c) - sent else BUFFER_LENGTH) = None \<Longrightarrow>
   write_chunked sent c = None"
  by (subst write_chunked.simps) (simp add: Let_def)

lemma udp_write_chunked_none:
  "memcpy (uwrite_buffer c) 0 (uoutgoing_data c) sent
     (if length (uoutgoing_data c) - sent < BUFFER_LENGTH
      then length (uoutgoing_data c) - sent else BUFFER_LENGTH) = None \<Longrightarrow>
   udp_write_chunked sent c = None"
  by (subst udp_write_chunked.simps) (simp add: Let_def)

lemma udp_write_chunked_step:
  "increment = (if length (uoutgoing_data c) - sent < BUFFER_LENGTH
                then length (uoutgoing_data c) - sent else BUFFER_LENGTH) \<Longrightarrow>
   memcpy (uwrite_buffer c) 0 (uoutgoing_data c) sent increment = Some wb \<Longrightarrow>
   async_write (utx (usocket c)) (take increment wb) = (ec, n, ch') \<Longrightarrow>
   udp_write_chunked sent c =
     (if ec \<noteq> no_error \<or> sent + n = length (uoutgoing_data c)
      then Some (ec, c\<lparr>uwrite_buffer := wb, usocket := (usocket c)\<lparr>utx := ch'\<rparr>\<rparr>)
      else udp_write_chunked (sent + n)
             (c\<lparr>uwrite_buffer := wb, usocket := (usocket c)\<lparr>utx := ch'\<rparr>\<rparr>))"
  by (subst udp_write_chunked.simps) (simp add: Let_def)

lemma write_chunked_same:
  "udp_sent u = tcp_sent t \<Longrightarrow>
   map_option (\<lambda>(e, u'). (e, udp_sent u')) (udp_write_chunked sent u)
     = map_option (\<lambda>(e, t'). (e, tcp_sent t')) (write_chunked sent t)"
proof (induction sent t arbitrary: u rule: write_chunked.induct)
  case (1 sent c)
  from "1.prems" have v: "utx (usocket u) = tx (socket c)" "uwrite_buffer u = write_buffer c"
    "uoutgoing_data u = outgoing_data c"
    by (simp_all add: udp_sent_def tcp_sent_def)
  define inc where "inc = (if length (outgoing_data c) - sent < BUFFER_LENGTH
                           then length (outgoing_data c) - sent else BUFFER_LENGTH)"
  have iu: "inc = (if length (uoutgoing_data u) - sent < BUFFER_LENGTH
                   then length (uoutgoing_data u) - sent else BUFFER_LENGTH)"
    unfolding inc_def v ..
  show ?case
  proof (cases "memcpy (write_buffer c) 0 (outgoing_data c) sent inc")
    case None
    from None have "write_chunked sent c = None"
      unfolding inc_def by (rule write_chunked_none)
    moreover from None have "udp_write_chunked sent u = None"
      unfolding inc_def v [symmetric] by (rule udp_write_chunked_none)
    ultimately show ?thesis by simp
  next
    case (Some wb)
    obtain ec n ch' where aw: "async_write (tx (socket c)) (take inc wb) = (ec, n, ch')"
      by (cases "async_write (tx (socket c)) (take inc wb)") auto
    define c1 where "c1 = c\<lparr>write_buffer := wb, socket := (socket c)\<lparr>tx := ch'\<rparr>\<rparr>"
    define u1 where "u1 = u\<lparr>uwrite_buffer := wb, usocket := (usocket u)\<lparr>utx := ch'\<rparr>\<rparr>"
    have v1: "udp_sent u1 = tcp_sent c1"
      using v by (simp add: udp_sent_def tcp_sent_def u1_def c1_def)
    have st: "write_chunked sent c =
        (if ec \<noteq> no_error \<or> sent + n = length (outgoing_data c) then Some (ec, c1)
         else write_chunked (sent + n) c1)"
      using write_chunked_step [OF inc_def Some aw] unfolding c1_def .
    have su: "udp_write_chunked sent u =
        (if ec \<noteq> no_error \<or> sent + n = length (outgoing_data c) then Some (ec, u1)
         else udp_write_chunked (sent + n) u1)"
      using udp_write_chunked_step [OF iu Some [folded v] aw [folded v]]
      unfolding u1_def v .
    show ?thesis
    proof (cases "ec \<noteq> no_error \<or> sent + n = length (outgoing_data c)")
      case True
      with st su v1 show ?thesis by simp
    next
      case False
      then have cnd: "\<not> (ec \<noteq> no_error \<or> sent + n = length (outgoing_data c1))"
        by (simp add: c1_def)
      from "1.IH" [of "length (outgoing_data c) - sent" inc wb ec "(n, ch')" n ch' c1 u1,
          OF refl inc_def Some aw [symmetric] refl c1_def cnd v1]
      show ?thesis using st su False by simp
    qed
  qed
qed

lemma concat_short:
  "\<forall>ch \<in> set new. length ch \<le> B \<Longrightarrow> length new \<le> 1 \<Longrightarrow> length (concat new) \<le> B"
  by (cases new) auto

text \<open>
  C7. On the same send side, scratch array and payload, the datagram connection's write
  and the stream connection's write call back with the same error and leave the same
  send side, scratch array and outgoing vector: the same sends with the same payloads in
  the same order. So a payload longer than \<open>BUFFER_LENGTH\<close>, when no send fails, goes out
  as two or more datagrams of at most \<open>BUFFER_LENGTH\<close> bytes each.
\<close>

theorem udp_write_same_as_tcp_write:
  assumes "utx (usocket u) = tx (socket t)" and "uwrite_buffer u = write_buffer t"
  shows "map_option (\<lambda>(e, u'). (e, udp_sent u')) (udp_write_data data u)
           = map_option (\<lambda>(e, t'). (e, tcp_sent t')) (write_data data t)
       \<and> (length (uwrite_buffer u) = BUFFER_LENGTH \<and> BUFFER_LENGTH < length data
            \<and> (\<forall>out \<in> set (tx_plan (utx (usocket u))). out = tx_ok) \<longrightarrow>
          (\<exists>u' new. udp_write_data data u = Some (no_error, u')
             \<and> wire (utx (usocket u')) = wire (utx (usocket u)) @ new
             \<and> 2 \<le> length new
             \<and> (\<forall>ch \<in> set new. length ch \<le> BUFFER_LENGTH)
             \<and> concat new = data))"
proof (intro conjI impI)
  define t0 where "t0 = t\<lparr>outgoing_data := data\<rparr>"
  define u0 where "u0 = u\<lparr>uoutgoing_data := data\<rparr>"
  have v: "udp_sent u0 = tcp_sent t0"
    using assms by (simp add: udp_sent_def tcp_sent_def u0_def t0_def)
  show same: "map_option (\<lambda>(e, u'). (e, udp_sent u')) (udp_write_data data u)
      = map_option (\<lambda>(e, t'). (e, tcp_sent t')) (write_data data t)"
    using write_chunked_same [OF v, of 0]
    by (simp add: udp_write_data_def write_data_def u0_def t0_def)
  assume a: "length (uwrite_buffer u) = BUFFER_LENGTH \<and> BUFFER_LENGTH < length data
      \<and> (\<forall>out \<in> set (tx_plan (utx (usocket u))). out = tx_ok)"
  have "0 \<le> length (outgoing_data t0)" "length (write_buffer t0) = BUFFER_LENGTH"
    using a assms by (simp_all add: t0_def)
  from write_chunked_sends [OF this]
  obtain ec c' new where w:
    "write_chunked 0 t0 = Some (ec, c')"
    "wire (tx (socket c')) = wire (tx (socket t0)) @ new"
    "\<forall>ch \<in> set new. length ch \<le> BUFFER_LENGTH"
    "ec = no_error \<longrightarrow> concat new = drop 0 (outgoing_data t0)"
    "(\<forall>out \<in> set (tx_plan (tx (socket t0))). out = tx_ok) \<longrightarrow> ec = no_error"
    by blast
  have ec: "ec = no_error" using w(5) a assms by (simp add: t0_def)
  then have cn: "concat new = data" using w(4) by (simp add: t0_def)
  have two: "2 \<le> length new"
  proof (rule ccontr)
    assume "\<not> 2 \<le> length new"
    then have "length new \<le> 1" by simp
    from concat_short [OF w(3) this] cn a show False by simp
  qed
  from same w(1) ec obtain u' where u': "udp_write_data data u = Some (no_error, u')"
    and s: "udp_sent u' = tcp_sent c'"
    by (auto simp: write_data_def t0_def [symmetric])
  have "wire (utx (usocket u')) = wire (utx (usocket u)) @ new"
    using s w(2) assms by (simp add: udp_sent_def tcp_sent_def t0_def)
  with u' two w(3) cn
  show "\<exists>u' new. udp_write_data data u = Some (no_error, u')
      \<and> wire (utx (usocket u')) = wire (utx (usocket u)) @ new
      \<and> 2 \<le> length new
      \<and> (\<forall>ch \<in> set new. length ch \<le> BUFFER_LENGTH)
      \<and> concat new = data"
    by blast
qed

theorem udp_write_same_as_tcp_write_witness:
  "map_option (\<lambda>(e, u'). (e, udp_sent u'))
      (udp_write_data (replicate 1025 (CHR ''x'')) (new_udp_connection [] [] []))
     = map_option (\<lambda>(e, t'). (e, tcp_sent t'))
         (write_data (replicate 1025 (CHR ''x'')) (new_tcp_connection [] []))
   \<and> (\<exists>u' new.
         udp_write_data (replicate 1025 (CHR ''x'')) (new_udp_connection [] [] [])
           = Some (no_error, u')
       \<and> wire (utx (usocket u')) = new
       \<and> 2 \<le> length new
       \<and> concat new = replicate 1025 (CHR ''x''))"
proof -
  let ?u = "new_udp_connection [] [] []" and ?t = "new_tcp_connection [] []"
  have h1: "utx (usocket ?u) = tx (socket ?t)" and h2: "uwrite_buffer ?u = write_buffer ?t"
    by (simp_all add: new_udp_connection_def new_tcp_connection_def)
  have h3: "length (uwrite_buffer ?u) = BUFFER_LENGTH
      \<and> BUFFER_LENGTH < length (replicate 1025 (CHR ''x''))
      \<and> (\<forall>out \<in> set (tx_plan (utx (usocket ?u))). out = tx_ok)"
    by (simp add: new_udp_connection_def BUFFER_LENGTH_def)
  have w: "wire (utx (usocket ?u)) = []"
    by (simp add: new_udp_connection_def)
  note th = udp_write_same_as_tcp_write [OF h1 h2, of "replicate 1025 (CHR ''x'')"]
  from th [THEN conjunct2, THEN mp, OF h3] w th [THEN conjunct1]
  show ?thesis by auto
qed

lemma udp_read_probe_fails:
  "faults (usocket c) = Some e # fs \<Longrightarrow>
   udp_read c = Some ((io_error e, endpoint_type, []), c\<lparr>usocket := (usocket c)\<lparr>faults := fs\<rparr>\<rparr>)"
  by (simp add: udp_read_def async_receive_null_def next_fault_def)

lemma udp_read_receive_fails:
  "faults (usocket c) = None # Some e # fs \<Longrightarrow> inbox (usocket c) = (sender, bs) # rest \<Longrightarrow>
   udp_read c = Some ((io_error e, endpoint_type, replicate (length bs) (CHR 0x00)),
                      c\<lparr>usocket := (usocket c)\<lparr>faults := fs\<rparr>\<rparr>)"
  by (simp add: udp_read_def async_receive_null_def async_receive_from_def next_fault_def
        available_def new_udp_read_cb_data_def Let_def)

lemma udp_read_delivers:
  "\<forall>f \<in> set (take 2 (faults (usocket c))). f = None \<Longrightarrow>
   inbox (usocket c) = (sender, bs) # rest \<Longrightarrow>
   udp_read c = Some ((no_error, sender, bs),
                      c\<lparr>usocket := (usocket c)\<lparr>faults := drop 2 (faults (usocket c)), inbox := rest\<rparr>\<rparr>)"
proof -
  assume f: "\<forall>f \<in> set (take 2 (faults (usocket c))). f = None"
    and i: "inbox (usocket c) = (sender, bs) # rest"
  consider "faults (usocket c) = []" | "faults (usocket c) = [None]"
    | fs where "faults (usocket c) = None # None # fs"
    using f by (cases "faults (usocket c)"; cases "tl (faults (usocket c))") auto
  then show ?thesis
    using i
    by cases
      (simp_all add: udp_read_def async_receive_null_def async_receive_from_def next_fault_def
        available_def new_udp_read_cb_data_def Let_def resize_def)
qed

text \<open>
  C6 (as amended). A datagram \<^verbatim>\<open>read()\<close> probes for readiness, sizes its buffer to the
  next datagram and receives once. When neither operation fails the callback gets no
  error, the sender and exactly the bytes of the next datagram, and that datagram alone
  leaves the queue. When the probe fails the callback gets the error, the default
  endpoint and an empty buffer. When the receive fails the callback gets the error, the
  default endpoint and the buffer as allocated: as long as the probed datagram, filled
  with zeros.
\<close>

theorem udp_read_one_datagram:
  "((\<forall>f \<in> set (take 2 (faults (usocket c))). f = None)
      \<and> inbox (usocket c) = (sender, bs) # rest \<longrightarrow>
    udp_read c = Some ((no_error, sender, bs),
       c\<lparr>usocket := (usocket c)\<lparr>faults := drop 2 (faults (usocket c)), inbox := rest\<rparr>\<rparr>))
   \<and> (faults (usocket c) = Some e # fs \<longrightarrow>
    udp_read c = Some ((io_error e, endpoint_type, []),
       c\<lparr>usocket := (usocket c)\<lparr>faults := fs\<rparr>\<rparr>))
   \<and> (faults (usocket c) = None # Some e # fs \<and> inbox (usocket c) = (sender, bs) # rest \<longrightarrow>
    udp_read c = Some ((io_error e, endpoint_type, replicate (length bs) (CHR 0x00)),
       c\<lparr>usocket := (usocket c)\<lparr>faults := fs\<rparr>\<rparr>))"
  using udp_read_delivers [of c sender bs rest] udp_read_probe_fails [of c e fs]
    udp_read_receive_fails [of c e fs sender bs rest]
  by blast

theorem udp_read_one_datagram_witness:
  "udp_read (new_udp_connection
       [(endpoint ''10.0.0.1'' 9, ''abc''), (endpoint ''10.0.0.2'' 7, ''defgh'')] [] [])
     = Some ((no_error, endpoint ''10.0.0.1'' 9, ''abc''),
             new_udp_connection [(endpoint ''10.0.0.2'' 7, ''defgh'')] [] [])
   \<and> udp_read (new_udp_connection [(endpoint ''10.0.0.1'' 9, ''abc'')] [Some 5] [])
     = Some ((io_error 5, endpoint_type, []),
             new_udp_connection [(endpoint ''10.0.0.1'' 9, ''abc'')] [] [])
   \<and> udp_read (new_udp_connection [(endpoint ''10.0.0.1'' 9, ''abc'')] [None, Some 5] [])
     = Some ((io_error 5, endpoint_type, [CHR 0x00, CHR 0x00, CHR 0x00]),
             new_udp_connection [(endpoint ''10.0.0.1'' 9, ''abc'')] [] [])"
proof -
  let ?a = "endpoint ''10.0.0.1'' 9" and ?b = "endpoint ''10.0.0.2'' 7"
  let ?c1 = "new_udp_connection [(?a, ''abc''), (?b, ''defgh'')] [] []"
  let ?c2 = "new_udp_connection [(?a, ''abc'')] [Some 5] []"
  let ?c3 = "new_udp_connection [(?a, ''abc'')] [None, Some 5] []"
  have h1: "(\<forall>f \<in> set (take 2 (faults (usocket ?c1))). f = None)
      \<and> inbox (usocket ?c1) = (?a, ''abc'') # [(?b, ''defgh'')]"
    by (simp add: new_udp_connection_def)
  have h2: "faults (usocket ?c2) = Some 5 # []"
    by (simp add: new_udp_connection_def)
  have h3: "faults (usocket ?c3) = None # Some 5 # [] \<and> inbox (usocket ?c3) = (?a, ''abc'') # []"
    by (simp add: new_udp_connection_def)
  note t1 = udp_read_one_datagram [where c = ?c1 and sender = ?a and bs = "''abc''"
      and rest = "[(?b, ''defgh'')]" and e = 0 and fs = "[]", THEN conjunct1, THEN mp, OF h1]
  note t2 = udp_read_one_datagram [where c = ?c2 and sender = ?a and bs = "''abc''"
      and rest = "[]" and e = 5 and fs = "[]", THEN conjunct2, THEN conjunct1, THEN mp, OF h2]
  note t3 = udp_read_one_datagram [where c = ?c3 and sender = ?a and bs = "''abc''"
      and rest = "[]" and e = 5 and fs = "[]", THEN conjunct2, THEN conjunct2, THEN mp, OF h3]
  show ?thesis
    unfolding t1 t2 t3 by (simp add: new_udp_connection_def)
qed

text \<open>
  The claim as stated fails when the receive fails after a successful probe: the callback
  gets the error with a buffer of three bytes, not an empty one.
\<close>

theorem udp_read_receive_error_counterexample:
  "udp_read (new_udp_connection [(endpoint ''10.0.0.1'' 9, ''abc'')] [None, Some 9] [])
     = Some ((io_error 9, endpoint_type, [CHR 0x00, CHR 0x00, CHR 0x00]),
             new_udp_connection [(endpoint ''10.0.0.1'' 9, ''abc'')] [] [])"
  by (simp add: udp_read_def async_receive_null_def async_receive_from_def next_fault_def
        available_def new_udp_read_cb_data_def Let_def new_udp_connection_def)

section \<open>Facts about the listener\<close>

lemma run_accepts_none_pending: "pending_accept l = 0 \<Longrightarrow> run_accepts evs l = Inr l"
  by (induction evs) (simp_all add: deliver_def)

lemma run_accepts_accepted:
  "connection_handler l = Some h \<Longrightarrow> pending_accept l = 1 \<Longrightarrow>
   run_accepts (map accepted cs @ evs) l =
     run_accepts evs
       (l\<lparr>handler_calls := handler_calls l @ map (\<lambda>c. (h, no_error, Some c)) cs\<rparr>)"
proof (induction cs arbitrary: l)
  case Nil
  then show ?case by simp
next
  case (Cons c cs)
  define l1 where "l1 = l\<lparr>handler_calls := handler_calls l @ [(h, no_error, Some c)]\<rparr>"
  have d: "deliver (accepted c) l = Inr l1"
    using Cons.prems by (simp add: deliver_def call_handler_def async_accept_def l1_def)
  have "connection_handler l1 = Some h" "pending_accept l1 = 1"
    using Cons.prems by (simp_all add: l1_def)
  from Cons.IH [OF this] d show ?case
    by (simp add: l1_def)
qed

lemma join_all_running:
  "join_all (map (\<lambda>thread. running) ts) = (Inr (), map (\<lambda>thread. not_a_thread) ts)"
  by (induction ts) simp_all

lemma join_all_not_joinable:
  "ts \<noteq> [] \<Longrightarrow> join_all (map (\<lambda>thread. not_a_thread) ts)
     = (Inl (system_error ''Invalid argument''), map (\<lambda>thread. not_a_thread) ts)"
  by (cases ts) simp_all

lemma run_cancelled_handler:
  "connection_handler l = Some h \<Longrightarrow>
   run_cancelled n l =
     Inr (l\<lparr>handler_calls := handler_calls l @ replicate n (h, io_error operation_aborted, None)\<rparr>)"
proof (induction n arbitrary: l)
  case 0
  then show ?case by simp
next
  case (Suc n)
  define l1 where "l1 = l\<lparr>handler_calls := handler_calls l @ [(h, io_error operation_aborted, None)]\<rparr>"
  have "connection_handler l1 = Some h" using Suc.prems by (simp add: l1_def)
  from Suc.IH [OF this] Suc.prems show ?case
    by (simp add: call_handler_def l1_def replicate_app_Cons_same)
qed

lemma start_running:
  "start h l0 = Inr l \<Longrightarrow> pending_accept l0 = 0 \<Longrightarrow>
   connection_handler l = Some h \<and> pending_accept l = 1 \<and> acceptor_open l
   \<and> threads l = map (\<lambda>thread. running) (threads l0)"
proof -
  assume s: "start h l0 = Inr l" and p: "pending_accept l0 = 0"
  define l1 where "l1 = l0\<lparr>connection_handler := Some h, ioservice_stopped := False,
      threads := map (\<lambda>thread. running) (threads l0)\<rparr>"
  have h1: "connection_handler (l1\<lparr>queued_completions := 0\<rparr>) = Some h"
    by (simp add: l1_def)
  obtain l2 where l2: "(if threads l1 = [] then Inr l1
      else run_cancelled (queued_completions l1) (l1\<lparr>queued_completions := 0\<rparr>)) = Inr l2"
    and f: "connection_handler l2 = Some h" "pending_accept l2 = 0" "threads l2 = threads l1"
    using p by (cases "threads l1 = []") (simp_all add: run_cancelled_handler [OF h1], simp_all add: l1_def)
  from s have "l = async_accept (l2\<lparr>acceptor_open := True\<rparr>)"
    using l2 by (auto simp: start_def Let_def l1_def split: if_splits)
  then show ?thesis using f by (simp add: async_accept_def l1_def)
qed

text \<open>
  C4. On a listener that \<^verbatim>\<open>start(handler)\<close> has set running, one accept is outstanding.
  After any number of successful accepts the handler has been called once per
  connection, in order, with no error and that connection, and one accept is outstanding
  again. After the first failed accept the handler has been called once more, with the
  error and no connection, no accept is outstanding, and whatever else arrives changes
  nothing: no further call of the handler, no further accept.
\<close>

theorem accept_chain_rearms_until_error:
  assumes "start h l0 = Inr l" and "pending_accept l0 = 0"
  shows "pending_accept l = 1
       \<and> run_accepts (map accepted cs) l =
           Inr (l\<lparr>handler_calls := handler_calls l @ map (\<lambda>c. (h, no_error, Some c)) cs\<rparr>)
       \<and> run_accepts (map accepted cs @ accept_failed e # evs) l =
           Inr (l\<lparr>pending_accept := 0,
                  handler_calls := handler_calls l @ map (\<lambda>c. (h, no_error, Some c)) cs
                                     @ [(h, io_error e, None)]\<rparr>)"
proof -
  from start_running [OF assms] have h: "connection_handler l = Some h"
    and p: "pending_accept l = 1"
    by simp_all
  define l1 where "l1 = l\<lparr>handler_calls := handler_calls l @ map (\<lambda>c. (h, no_error, Some c)) cs\<rparr>"
  have a: "run_accepts (map accepted cs) l = Inr l1"
    using run_accepts_accepted [OF h p, of cs "[]"] by (simp add: l1_def)
  define l2 where "l2 = l1\<lparr>pending_accept := 0,
      handler_calls := handler_calls l1 @ [(h, io_error e, None)]\<rparr>"
  have d: "deliver (accept_failed e) l1 = Inr l2"
    using h p by (simp add: deliver_def call_handler_def l1_def l2_def)
  have "pending_accept l2 = 0" by (simp add: l2_def)
  from run_accepts_none_pending [OF this, of evs] d
  have "run_accepts (accept_failed e # evs) l1 = Inr l2" by simp
  with run_accepts_accepted [OF h p, of cs "accept_failed e # evs"]
  have b: "run_accepts (map accepted cs @ accept_failed e # evs) l = Inr l2"
    by (simp add: l1_def)
  show ?thesis using p a b by (simp add: l1_def l2_def)
qed

theorem accept_chain_rearms_until_error_witness:
  "run_accepts [accepted 10, accepted 11]
      \<lparr>acceptor_open = True, ioservice_stopped = False, threads = [running, running],
       connection_handler = Some 7, pending_accept = 1, handler_calls = [],
       queued_completions = 0, schedule = []\<rparr>
     = Inr \<lparr>acceptor_open = True, ioservice_stopped = False, threads = [running, running],
            connection_handler = Some 7, pending_accept = 1,
            handler_calls = [(7, no_error, Some 10), (7, no_error, Some 11)],
            queued_completions = 0, schedule = []\<rparr>
   \<and> run_accepts [accepted 10, accept_failed 24, accepted 11, accept_failed 24]
      \<lparr>acceptor_open = True, ioservice_stopped = False, threads = [running, running],
       connection_handler = Some 7, pending_accept = 1, handler_calls = [],
       queued_completions = 0, schedule = []\<rparr>
     = Inr \<lparr>acceptor_open = True, ioservice_stopped = False, threads = [running, running],
            connection_handler = Some 7, pending_accept = 0,
            handler_calls = [(7, no_error, Some 10), (7, io_error 24, None)],
            queued_completions = 0, schedule = []\<rparr>"
proof -
  let ?l = "\<lparr>acceptor_open = True, ioservice_stopped = False, threads = [running, running],
       connection_handler = Some 7, pending_accept = 1, handler_calls = [],
       queued_completions = 0, schedule = []\<rparr>"
  have s: "start 7 new_tcp_listener = Inr ?l"
    by (simp add: start_def new_tcp_listener_def THREADS_def async_accept_def Let_def
          numeral_2_eq_2)
  have p: "pending_accept new_tcp_listener = 0"
    by (simp add: new_tcp_listener_def)
  from accept_chain_rearms_until_error [OF s p, of "[10, 11]"]
       accept_chain_rearms_until_error [OF s p, of "[10]" 24 "[accepted 11, accept_failed 24]"]
  show ?thesis by simp
qed

lemma cancel_accepts_running:
  "connection_handler l = Some h \<Longrightarrow>
   \<exists>l'. cancel_accepts l = Inr l' \<and> threads l' = threads l \<and> pending_accept l' = 0
      \<and> acceptor_open l' = acceptor_open l"
  by (cases "schedule l")
     (auto simp: cancel_accepts_def Let_def run_cancelled_handler)

lemma cancel_accepts_none_pending:
  "pending_accept l = 0 \<Longrightarrow> cancel_accepts l = Inr l"
  by (cases l) (simp add: cancel_accepts_def)

lemma stop_after_start:
  assumes "start h l0 = Inr l1" and "pending_accept l0 = 0"
  shows "\<exists>l2. stop l1 = (Inr (), l2)
      \<and> threads l2 = map (\<lambda>thread. not_a_thread) (threads l0)
      \<and> connection_handler l2 = None \<and> pending_accept l2 = 0
      \<and> acceptor_open l2 = False \<and> ioservice_stopped l2 = True"
proof -
  from start_running [OF assms] have h: "connection_handler (l1\<lparr>acceptor_open := False\<rparr>) = Some h"
    and t: "threads l1 = map (\<lambda>thread. running) (threads l0)"
    by simp_all
  from cancel_accepts_running [OF h] obtain l' where
    c: "cancel_accepts (l1\<lparr>acceptor_open := False\<rparr>) = Inr l'"
    and f: "threads l' = threads l1" "pending_accept l' = 0" "acceptor_open l' = False"
    by auto
  show ?thesis
    using c f t by (simp add: stop_def Let_def join_all_running)
qed

lemma second_stop_after_start:
  assumes "start h l0 = Inr l1" and "pending_accept l0 = 0" and "threads l0 \<noteq> []"
  shows "fst (stop (snd (stop l1))) = Inl (system_error ''Invalid argument'')"
proof -
  from stop_after_start [OF assms(1,2)] obtain l2 where s: "stop l1 = (Inr (), l2)"
    and t: "threads l2 = map (\<lambda>thread. not_a_thread) (threads l0)"
    and p: "pending_accept l2 = 0"
    by blast
  have "cancel_accepts (l2\<lparr>acceptor_open := False\<rparr>) = Inr (l2\<lparr>acceptor_open := False\<rparr>)"
    using p by (simp add: cancel_accepts_none_pending)
  with join_all_not_joinable [OF assms(3)] t s show ?thesis
    by (simp add: stop_def [of l2] Let_def)
qed

text \<open>
  C5. A listener is started, stopped, and stopped again. The first \<^verbatim>\<open>stop()\<close> closes
  the acceptor, stops the \<^verbatim>\<open>io_service\<close>, joins both workers and clears the handler. The
  second \<^verbatim>\<open>stop()\<close> throws \<^verbatim>\<open>std::system_error\<close> from \<^verbatim>\<open>join()\<close>, since no thread is
  joinable any more; in the destructor, which calls \<^verbatim>\<open>stop()\<close>, that is
  \<^verbatim>\<open>std::terminate\<close>. The destructor of a listener that was never started ends the same
  way. This is so whether the cancelled accept's completion runs during the first
  \<^verbatim>\<open>stop()\<close> (the old handler is then called with \<open>operation_aborted\<close>) or stays queued;
  when it stays queued, a \<^verbatim>\<open>start()\<close> after the \<^verbatim>\<open>stop()\<close> runs it, and the new handler is
  called with \<open>operation_aborted\<close>, which does not happen on a new listener.
\<close>

theorem second_stop_throws:
  "start 7 new_tcp_listener
     = Inr \<lparr>acceptor_open = True, ioservice_stopped = False, threads = [running, running],
            connection_handler = Some 7, pending_accept = 1, handler_calls = [],
            queued_completions = 0, schedule = []\<rparr>
   \<and> stop \<lparr>acceptor_open = True, ioservice_stopped = False, threads = [running, running],
            connection_handler = Some 7, pending_accept = 1, handler_calls = [],
            queued_completions = 0, schedule = []\<rparr>
     = (Inr (), \<lparr>acceptor_open = False, ioservice_stopped = True,
                  threads = [not_a_thread, not_a_thread],
                  connection_handler = None, pending_accept = 0, handler_calls = [],
                  queued_completions = 1, schedule = []\<rparr>)
   \<and> stop \<lparr>acceptor_open = False, ioservice_stopped = True,
            threads = [not_a_thread, not_a_thread],
            connection_handler = None, pending_accept = 0, handler_calls = [],
            queued_completions = 1, schedule = []\<rparr>
     = (Inl (system_error ''Invalid argument''),
        \<lparr>acceptor_open = False, ioservice_stopped = True,
         threads = [not_a_thread, not_a_thread],
         connection_handler = None, pending_accept = 0, handler_calls = [],
         queued_completions = 1, schedule = []\<rparr>)
   \<and> destructor \<lparr>acceptor_open = False, ioservice_stopped = True,
            threads = [not_a_thread, not_a_thread],
            connection_handler = None, pending_accept = 0, handler_calls = [],
            queued_completions = 1, schedule = []\<rparr>
     = Inl std_terminate
   \<and> destructor new_tcp_listener = Inl std_terminate
   \<and> start 8 \<lparr>acceptor_open = False, ioservice_stopped = True,
            threads = [not_a_thread, not_a_thread],
            connection_handler = None, pending_accept = 0, handler_calls = [],
            queued_completions = 1, schedule = []\<rparr>
     = Inr \<lparr>acceptor_open = True, ioservice_stopped = False, threads = [running, running],
            connection_handler = Some 8, pending_accept = 1,
            handler_calls = [(8, io_error operation_aborted, None)],
            queued_completions = 0, schedule = []\<rparr>
   \<and> start 8 new_tcp_listener
     = Inr \<lparr>acceptor_open = True, ioservice_stopped = False, threads = [running, running],
            connection_handler = Some 8, pending_accept = 1, handler_calls = [],
            queued_completions = 0, schedule = []\<rparr>
   \<and> stop \<lparr>acceptor_open = True, ioservice_stopped = False, threads = [running, running],
            connection_handler = Some 7, pending_accept = 1, handler_calls = [],
            queued_completions = 0, schedule = [True]\<rparr>
     = (Inr (), \<lparr>acceptor_open = False, ioservice_stopped = True,
                  threads = [not_a_thread, not_a_thread],
                  connection_handler = None, pending_accept = 0,
                  handler_calls = [(7, io_error operation_aborted, None)],
                  queued_completions = 0, schedule = []\<rparr>)
   \<and> stop \<lparr>acceptor_open = False, ioservice_stopped = True,
            threads = [not_a_thread, not_a_thread],
            connection_handler = None, pending_accept = 0,
            handler_calls = [(7, io_error operation_aborted, None)],
            queued_completions = 0, schedule = []\<rparr>
     = (Inl (system_error ''Invalid argument''),
        \<lparr>acceptor_open = False, ioservice_stopped = True,
         threads = [not_a_thread, not_a_thread],
         connection_handler = None, pending_accept = 0,
         handler_calls = [(7, io_error operation_aborted, None)],
         queued_completions = 0, schedule = []\<rparr>)
   \<and> destructor \<lparr>acceptor_open = False, ioservice_stopped = True,
            threads = [not_a_thread, not_a_thread],
            connection_handler = None, pending_accept = 0,
            handler_calls = [(7, io_error operation_aborted, None)],
            queued_completions = 0, schedule = []\<rparr>
     = Inl std_terminate"
  by (simp add: start_def stop_def destructor_def cancel_accepts_def call_handler_def
        new_tcp_listener_def THREADS_def async_accept_def Let_def numeral_2_eq_2)

end
